theory Spec2Isabelle
  imports Main "HOL-Library.Multiset" "HOL-Library.Stream" "HOL-Library.Word"
begin

section \<open>The skip list of skiplist.go as a program over an explicit store\<close>

text \<open>
  Go's \<^verbatim>\<open>interface{}\<close> is a value or \<^verbatim>\<open>nil\<close>. Node objects live in a store;
  a \<^verbatim>\<open>*node\<close> is \<^verbatim>\<open>nil\<close> (\<open>None\<close>) or the address of a node (\<open>Some a\<close>), and the
  address is the node's index in the store. A \<^verbatim>\<open>[]*node\<close> slice is never appended to or
  resliced by the program, so a slice value is the array it aliases: the head array of
  the list or the \<^verbatim>\<open>next\<close> array of a node.
\<close>

datatype 'a iface = Nil | Val 'a

type_synonym addr = nat

record 'a node =
  val :: "'a iface"
  nexts :: "addr option list"

record 'a SkipList =
  Compare :: "'a iface \<Rightarrow> 'a iface \<Rightarrow> int"
  maxLevel :: int
  head :: "addr option list"
  heap :: "'a node list"

datatype slice = HeadSlice | NextSlice addr

text \<open>A \<^verbatim>\<open>**node\<close>: the address of slot \<open>i\<close> of a slice.\<close>

type_synonym slot = "slice \<times> nat"

datatype panic =
    InvalidComparison
  | IndexOutOfRange
  | NilDereference
  | MakeSliceLenOutOfRange
  | RandomLevelError
  | InvalidAddress

subsection \<open>Store access\<close>

definition deref :: "'a SkipList \<Rightarrow> addr \<Rightarrow> panic + 'a node" where
  "deref s a = (if a < length (heap s) then Inr (heap s ! a) else Inl InvalidAddress)"

definition slice_elems :: "'a SkipList \<Rightarrow> slice \<Rightarrow> panic + addr option list" where
  "slice_elems s sl =
     (case sl of
        HeadSlice \<Rightarrow> Inr (head s)
      | NextSlice a \<Rightarrow> (case deref s a of Inl p \<Rightarrow> Inl p | Inr n \<Rightarrow> Inr (nexts n)))"

text \<open>\<^verbatim>\<open>nodes[i]\<close>: Go panics when the index is out of range.\<close>

definition index :: "'a SkipList \<Rightarrow> slice \<Rightarrow> nat \<Rightarrow> panic + addr option" where
  "index s sl i =
     (case slice_elems s sl of
        Inl p \<Rightarrow> Inl p
      | Inr xs \<Rightarrow> (if i < length xs then Inr (xs ! i) else Inl IndexOutOfRange))"

text \<open>\<^verbatim>\<open>nodes[i] = v\<close>, through a slot address.\<close>

definition store_slot :: "'a SkipList \<Rightarrow> slot \<Rightarrow> addr option \<Rightarrow> panic + 'a SkipList" where
  "store_slot s sl v =
     (case sl of
        (HeadSlice, i) \<Rightarrow>
          (if i < length (head s) then Inr (s\<lparr>head := (head s)[i := v]\<rparr>)
           else Inl IndexOutOfRange)
      | (NextSlice a, i) \<Rightarrow>
          (case deref s a of
             Inl p \<Rightarrow> Inl p
           | Inr n \<Rightarrow>
               (if i < length (nexts n)
                then Inr (s\<lparr>heap := (heap s)[a := n\<lparr>nexts := (nexts n)[i := v]\<rparr>]\<rparr>)
                else Inl IndexOutOfRange)))"

subsection \<open>New\<close>

text \<open>\<^verbatim>\<open>make([]*node, maxLevel)\<close> panics on a negative length.\<close>

definition New :: "('a iface \<Rightarrow> 'a iface \<Rightarrow> int) \<Rightarrow> int \<Rightarrow> panic + 'a SkipList" where
  "New compare maxLevel' =
     (if maxLevel' < 0 then Inl MakeSliceLenOutOfRange
      else Inr \<lparr>Compare = compare, maxLevel = maxLevel',
                head = replicate (nat maxLevel') None, heap = []\<rparr>)"

subsection \<open>cmp\<close>

text \<open>The nil node has value greater than any legal element value.\<close>

definition cmp :: "'a SkipList \<Rightarrow> addr option \<Rightarrow> 'a iface \<Rightarrow> panic + int" where
  "cmp s n elem =
     (case n of
        None \<Rightarrow> Inr 1
      | Some a \<Rightarrow> (case deref s a of Inl p \<Rightarrow> Inl p | Inr nd \<Rightarrow> Inr (Compare s (val nd) elem)))"

subsection \<open>Contains\<close>

text \<open>
  The statements after the level loop: \<^verbatim>\<open>n := nodes[0]; return s.cmp(n, elem) == 0\<close>.
\<close>

definition contains_final :: "'a SkipList \<Rightarrow> 'a iface \<Rightarrow> slice \<Rightarrow> panic + bool" where
  "contains_final s elem nodes =
     (case index s nodes 0 of
        Inl p \<Rightarrow> Inl p
      | Inr n \<Rightarrow> (case cmp s n elem of Inl p \<Rightarrow> Inl p | Inr c \<Rightarrow> Inr (c = 0)))"

text \<open>
  The two nested loops of Contains as one loop over the pair (\<open>nodes\<close>, \<open>i\<close>); \<open>None\<close> is
  a loop that never returns.
\<close>

partial_function (option) contains_loop ::
  "'a SkipList \<Rightarrow> 'a iface \<Rightarrow> slice \<Rightarrow> nat \<Rightarrow> (panic + bool) option" where
  "contains_loop s elem nodes i =
     (case index s nodes i of
        Inl p \<Rightarrow> Some (Inl p)
      | Inr n \<Rightarrow>
          (case cmp s n elem of
             Inl p \<Rightarrow> Some (Inl p)
           | Inr c \<Rightarrow>
               if c = -1 then
                 (case n of
                    None \<Rightarrow> Some (Inl NilDereference)
                  | Some a \<Rightarrow> contains_loop s elem (NextSlice a) i)
               else if c = 0 then Some (Inr True)
               else if c = 1 then
                 (if i = 0 then Some (contains_final s elem nodes)
                  else contains_loop s elem nodes (i - 1))
               else Some (Inl InvalidComparison)))"

definition Contains :: "'a SkipList \<Rightarrow> 'a iface \<Rightarrow> (panic + bool) option" where
  "Contains s elem =
     (if maxLevel s - 1 \<ge> 0 then contains_loop s elem HeadSlice (nat (maxLevel s - 1))
      else Some (contains_final s elem HeadSlice))"

subsection \<open>randLevel\<close>

text \<open>
  The random source: each \<^verbatim>\<open>rand.Read(rb)\<close> on the one-byte buffer either fails or
  fills the byte. The source is the stream of the outcomes of the successive reads.
\<close>

datatype rand_read = ReadErr | ReadOk "8 word"

function randLevel_loop :: "int \<Rightarrow> int \<Rightarrow> rand_read stream \<Rightarrow> panic + int" where
  "randLevel_loop maxLevel' level rnd =
     (if level < maxLevel' then
        (case shd rnd of
           ReadErr \<Rightarrow> Inl RandomLevelError
         | ReadOk b \<Rightarrow>
             if and b 1 = 1 then randLevel_loop maxLevel' (level + 1) (stl rnd)
             else Inr level)
      else Inr level)"
  by pat_completeness auto
termination
  by (relation "measure (\<lambda>(m, l, r). nat (m - l))") auto

declare randLevel_loop.simps [simp del]

definition randLevel :: "'a SkipList \<Rightarrow> rand_read stream \<Rightarrow> panic + int" where
  "randLevel s rnd = randLevel_loop (maxLevel s) 1 rnd"

subsection \<open>Insert\<close>

text \<open>
  The loop \<^verbatim>\<open>for i := range n.next\<close> over the levels of the new node \<open>n\<close>:
  \<^verbatim>\<open>n.next[i] = *updates[i]; *updates[i] = n\<close>. An entry of \<open>updates\<close> that was never
  assigned is a nil pointer.
\<close>

fun splice :: "'a SkipList \<Rightarrow> addr \<Rightarrow> slot option list \<Rightarrow> nat list \<Rightarrow> panic + 'a SkipList" where
  "splice s n updates [] = Inr s"
| "splice s n updates (i # is) =
     (if i < length updates then
        (case updates ! i of
           None \<Rightarrow> Inl NilDereference
         | Some (sl, j) \<Rightarrow>
             (case index s sl j of
                Inl p \<Rightarrow> Inl p
              | Inr v \<Rightarrow>
                  (case store_slot s (NextSlice n, i) v of
                     Inl p \<Rightarrow> Inl p
                   | Inr s1 \<Rightarrow>
                       (case store_slot s1 (sl, j) (Some n) of
                          Inl p \<Rightarrow> Inl p
                        | Inr s2 \<Rightarrow> splice s2 n updates is))))
      else Inl IndexOutOfRange)"

text \<open>
  The statements after the search loop of Insert: the level is drawn, the node is
  allocated at a fresh address and spliced in; the result is nil.
\<close>

definition insert_new ::
  "'a SkipList \<Rightarrow> 'a iface \<Rightarrow> slot option list \<Rightarrow> rand_read stream \<Rightarrow>
   panic + ('a iface \<times> 'a SkipList)" where
  "insert_new s elem updates rnd =
     (case randLevel s rnd of
        Inl p \<Rightarrow> Inl p
      | Inr level \<Rightarrow>
          (let n = length (heap s);
               s1 = s\<lparr>heap := heap s @ [\<lparr>val = elem, nexts = replicate (nat level) None\<rparr>]\<rparr>
           in case splice s1 n updates [0..<nat level] of
                Inl p \<Rightarrow> Inl p
              | Inr s2 \<Rightarrow> Inr (Nil, s2)))"

text \<open>
  The search loops of Insert as one loop over (\<open>nodes\<close>, \<open>i\<close>, \<open>updates\<close>). The switch has
  no default case: on any other comparison result no case runs and the inner
  \<^verbatim>\<open>for\<close> repeats with nothing changed.
\<close>

partial_function (option) insert_loop ::
  "'a SkipList \<Rightarrow> 'a iface \<Rightarrow> rand_read stream \<Rightarrow> slice \<Rightarrow> nat \<Rightarrow> slot option list \<Rightarrow>
   (panic + ('a iface \<times> 'a SkipList)) option" where
  "insert_loop s elem rnd nodes i updates =
     (case index s nodes i of
        Inl p \<Rightarrow> Some (Inl p)
      | Inr n \<Rightarrow>
          (case cmp s n elem of
             Inl p \<Rightarrow> Some (Inl p)
           | Inr c \<Rightarrow>
               if c = -1 then
                 (case n of
                    None \<Rightarrow> Some (Inl NilDereference)
                  | Some a \<Rightarrow> insert_loop s elem rnd (NextSlice a) i updates)
               else if c = 0 then
                 (case n of
                    None \<Rightarrow> Some (Inl NilDereference)
                  | Some a \<Rightarrow>
                      (case deref s a of
                         Inl p \<Rightarrow> Some (Inl p)
                       | Inr nd \<Rightarrow>
                           Some (Inr (val nd, s\<lparr>heap := (heap s)[a := nd\<lparr>val := elem\<rparr>]\<rparr>))))
               else if c = 1 then
                 (if i < length updates then
                    (if i = 0 then Some (insert_new s elem (updates[i := Some (nodes, i)]) rnd)
                     else insert_loop s elem rnd nodes (i - 1) (updates[i := Some (nodes, i)]))
                  else Some (Inl IndexOutOfRange))
               else insert_loop s elem rnd nodes i updates))"

definition Insert ::
  "'a SkipList \<Rightarrow> rand_read stream \<Rightarrow> 'a iface \<Rightarrow> (panic + ('a iface \<times> 'a SkipList)) option" where
  "Insert s rnd elem =
     (if maxLevel s < 0 then Some (Inl MakeSliceLenOutOfRange)
      else
        (let updates = replicate (nat (maxLevel s)) None
         in if maxLevel s - 1 \<ge> 0
            then insert_loop s elem rnd HeadSlice (nat (maxLevel s - 1)) updates
            else Some (insert_new s elem updates rnd)))"

subsection \<open>ForEach\<close>

text \<open>
  The callback is a Go closure: it may change state of its own, \<open>'c\<close>, and returns nil
  (\<open>None\<close>) or an error value.
\<close>

partial_function (option) foreach_loop ::
  "'a SkipList \<Rightarrow> ('a iface \<Rightarrow> 'c \<Rightarrow> 'x option \<times> 'c) \<Rightarrow> addr option \<Rightarrow> 'c \<Rightarrow>
   (panic + ('x option \<times> 'c)) option" where
  "foreach_loop s callback n st =
     (case n of
        None \<Rightarrow> Some (Inr (None, st))
      | Some a \<Rightarrow>
          (case deref s a of
             Inl p \<Rightarrow> Some (Inl p)
           | Inr nd \<Rightarrow>
               (case callback (val nd) st of
                  (Some err, st') \<Rightarrow> Some (Inr (Some err, st'))
                | (None, st') \<Rightarrow>
                    (case index s (NextSlice a) 0 of
                       Inl p \<Rightarrow> Some (Inl p)
                     | Inr n' \<Rightarrow> foreach_loop s callback n' st'))))"

definition ForEach ::
  "'a SkipList \<Rightarrow> ('a iface \<Rightarrow> 'c \<Rightarrow> 'x option \<times> 'c) \<Rightarrow> 'c \<Rightarrow>
   (panic + ('x option \<times> 'c)) option" where
  "ForEach s callback st =
     (case index s HeadSlice 0 of
        Inl p \<Rightarrow> Some (Inl p)
      | Inr n \<Rightarrow> foreach_loop s callback n st)"

section \<open>A comparator for concrete lists\<close>

text \<open>
  A three-way comparison of integers that also accepts nil, which it puts before every
  integer; on integers it is the comparator of the repository's tests.
\<close>

definition int_cmp :: "int iface \<Rightarrow> int iface \<Rightarrow> int" where
  "int_cmp a b =
     (case (a, b) of
        (Nil, Nil) \<Rightarrow> 0
      | (Nil, Val y) \<Rightarrow> -1
      | (Val x, Nil) \<Rightarrow> 1
      | (Val x, Val y) \<Rightarrow> if x < y then -1 else if x = y then 0 else 1)"

text \<open>The bit that randLevel tests, \<^verbatim>\<open>rb[0]&1 == 1\<close>.\<close>

definition one_bit :: "8 word \<Rightarrow> bool" where
  "one_bit b = (and b 1 = 1)"

section \<open>The shape of a skip list in the store\<close>

definition height :: "'a SkipList \<Rightarrow> addr \<Rightarrow> nat" where
  "height s a = length (nexts (heap s ! a))"

definition valof :: "'a SkipList \<Rightarrow> addr \<Rightarrow> 'a iface" where
  "valof s a = val (heap s ! a)"

definition first_at :: "'a SkipList \<Rightarrow> nat \<Rightarrow> addr list \<Rightarrow> addr option" where
  "first_at s L as = List.find (\<lambda>a. L < height s a) as"

definition slice_of :: "addr list \<Rightarrow> slice" where
  "slice_of pre = (if pre = [] then HeadSlice else NextSlice (last pre))"

definition slice_height :: "'a SkipList \<Rightarrow> addr list \<Rightarrow> nat" where
  "slice_height s pre = (if pre = [] then length (head s) else height s (last pre))"

definition cmp_contract :: "('a \<Rightarrow> 'a \<Rightarrow> int) \<Rightarrow> bool" where
  "cmp_contract c =
     ((\<forall>a b. c a b = -1 \<or> c a b = 0 \<or> c a b = 1) \<and>
      (\<forall>a b. c b a = - c a b) \<and>
      (\<forall>a b d. c a b \<le> 0 \<longrightarrow> c b d \<le> 0 \<longrightarrow> c a d \<le> 0))"

definition skiplist_inv :: "'a SkipList \<Rightarrow> addr list \<Rightarrow> bool" where
  "skiplist_inv s as =
     (1 \<le> maxLevel s \<and> length (head s) = nat (maxLevel s) \<and>
      distinct as \<and> set as = {..<length (heap s)} \<and>
      (\<forall>a < length (heap s). 1 \<le> height s a \<and> int (height s a) \<le> maxLevel s) \<and>
      sorted_wrt (\<lambda>a b. Compare s (valof s a) (valof s b) = -1) as \<and>
      (\<forall>p q L. as = p @ q \<longrightarrow> L < slice_height s p \<longrightarrow>
         index s (slice_of p) L = Inr (first_at s L q)))"

definition set_val :: "'a SkipList \<Rightarrow> addr \<Rightarrow> 'a iface \<Rightarrow> 'a SkipList" where
  "set_val s a e = s\<lparr>heap := (heap s)[a := (heap s ! a)\<lparr>val := e\<rparr>]\<rparr>"

definition upd_ok :: "'a SkipList \<Rightarrow> addr list \<Rightarrow> nat \<Rightarrow> slot option \<Rightarrow> bool" where
  "upd_ok s pre j u =
     (\<exists>p mid. pre = p @ mid \<and> u = Some (slice_of p, j) \<and> j < slice_height s p \<and>
        (\<forall>b \<in> set mid. height s b \<le> j))"

definition insert_post ::
  "'a SkipList \<Rightarrow> 'a iface \<Rightarrow> rand_read stream \<Rightarrow> addr list \<Rightarrow>
   (panic + ('a iface \<times> 'a SkipList)) option \<Rightarrow> bool" where
  "insert_post s e rnd as res =
     ((\<exists>a \<in> set as. Compare s (valof s a) e = 0 \<and> res = Some (Inr (valof s a, set_val s a e))) \<or>
      ((\<forall>a \<in> set as. Compare s (valof s a) e \<noteq> 0) \<and>
       (\<exists>pre rest upd. as = pre @ rest \<and>
          (\<forall>a \<in> set pre. Compare s (valof s a) e = -1) \<and>
          (\<forall>b \<in> set rest. Compare s (valof s b) e = 1) \<and>
          length upd = nat (maxLevel s) \<and>
          (\<forall>j < nat (maxLevel s). upd_ok s pre j (upd ! j)) \<and>
          res = Some (insert_new s e upd rnd))))"

definition same_shape :: "'a SkipList \<Rightarrow> 'a SkipList \<Rightarrow> bool" where
  "same_shape s s' =
     (Compare s' = Compare s \<and> maxLevel s' = maxLevel s \<and>
      length (head s') = length (head s) \<and> length (heap s') = length (heap s) \<and>
      (\<forall>a. valof s' a = valof s a) \<and> (\<forall>a. height s' a = height s a))"

section \<open>Lists built by the public operations\<close>

text \<open>
  \<open>built c m es s\<close>: the list \<open>s\<close> is the result of New with comparator \<open>c\<close> and maximum
  level \<open>m\<close> followed by Inserts of the values \<open>es\<close>, in this order, each over some
  random source, none of which panicked. Contains and ForEach do not change the list.
\<close>

inductive built ::
  "('a iface \<Rightarrow> 'a iface \<Rightarrow> int) \<Rightarrow> int \<Rightarrow> 'a iface list \<Rightarrow> 'a SkipList \<Rightarrow> bool" where
  built_New: "New c m = Inr s \<Longrightarrow> built c m [] s"
| built_Insert:
    "built c m es s \<Longrightarrow> Insert s rnd e = Some (Inr (r, s')) \<Longrightarrow> built c m (es @ [e]) s'"

text \<open>Values that are pairwise distinct under the comparator.\<close>

definition distinct_under :: "('a \<Rightarrow> 'a \<Rightarrow> int) \<Rightarrow> 'a list \<Rightarrow> bool" where
  "distinct_under c es = sorted_wrt (\<lambda>x y. c x y \<noteq> 0) es"

text \<open>
  The nodes reached from \<open>n\<close> by following the forward references of level \<open>L\<close> until
  nil; \<open>None\<close> when nil is not reached within \<open>fuel\<close> steps or a reference is invalid.
  A chain without a cycle visits each node of the store at most once.
\<close>

fun walk :: "'a SkipList \<Rightarrow> nat \<Rightarrow> nat \<Rightarrow> addr option \<Rightarrow> addr list option" where
  "walk s L fuel None = Some []"
| "walk s L 0 (Some a) = None"
| "walk s L (Suc fuel) (Some a) =
     (case index s (NextSlice a) L of
        Inl p \<Rightarrow> None
      | Inr n \<Rightarrow> map_option ((#) a) (walk s L fuel n))"

definition level_chain :: "'a SkipList \<Rightarrow> nat \<Rightarrow> addr list option" where
  "level_chain s L =
     (case index s HeadSlice L of
        Inl p \<Rightarrow> None
      | Inr n \<Rightarrow> walk s L (length (heap s)) n)"

text \<open>
  ForEach as the specification words it: the callback is applied to the values in
  order; the first failure stops the traversal and is the result; without a failure
  the result is success.
\<close>

fun foreach_spec :: "('v \<Rightarrow> 'c \<Rightarrow> 'x option \<times> 'c) \<Rightarrow> 'v list \<Rightarrow> 'c \<Rightarrow> 'x option \<times> 'c" where
  "foreach_spec callback [] st = (None, st)"
| "foreach_spec callback (v # vs) st =
     (case callback v st of
        (Some err, st') \<Rightarrow> (Some err, st')
      | (None, st') \<Rightarrow> foreach_spec callback vs st')"

(*DEFS-END*)


section \<open>The level generator\<close>

lemma randLevel_loop_ok:
  "randLevel_loop m level (smap ReadOk bytes) =
     Inr (level + int (length (takeWhile one_bit (stake (nat (m - level)) bytes))))"
proof (induction "nat (m - level)" arbitrary: level bytes)
  case 0
  then show ?case by (subst randLevel_loop.simps) simp
next
  case (Suc k)
  then have lt: "level < m" and k: "k = nat (m - (level + 1))" by linarith+
  have st: "stake (nat (m - level)) bytes = shd bytes # stake (nat (m - (level + 1))) (stl bytes)"
    using Suc.hyps(2) k by (metis stake.simps(2))
  have step: "randLevel_loop m level (smap ReadOk bytes) =
      (if one_bit (shd bytes) then randLevel_loop m (level + 1) (smap ReadOk (stl bytes))
       else Inr level)"
    using lt by (subst randLevel_loop.simps) (simp add: one_bit_def)
  show ?case
    unfolding step st using Suc.hyps(1)[OF k, of "stl bytes"] by simp
qed


lemma takeWhile_stake_cap:
  "k \<le> n \<Longrightarrow> length (takeWhile P (stake k xs)) = min k (length (takeWhile P (stake n xs)))"
proof (induction k arbitrary: n xs)
  case 0
  then show ?case by simp
next
  case (Suc k)
  then obtain n' where n: "n = Suc n'" and le: "k \<le> n'" by (cases n) auto
  show ?case using Suc.IH[OF le, of "stl xs"] by (simp add: n)
qed

lemma randLevel_ok:
  "randLevel s (smap ReadOk bytes) =
     Inr (1 + int (length (takeWhile one_bit (stake (nat (maxLevel s - 1)) bytes))))"
  by (simp add: randLevel_def randLevel_loop_ok)

lemma randLevel_bounds:
  assumes "1 \<le> maxLevel s" and "randLevel s (smap ReadOk bytes) = Inr h"
  shows "1 \<le> h" and "h \<le> maxLevel s"
proof -
  have "length (takeWhile one_bit (stake (nat (maxLevel s - 1)) bytes)) \<le> nat (maxLevel s - 1)"
    by (metis length_stake length_takeWhile_le)
  then show "1 \<le> h" and "h \<le> maxLevel s"
    using assms by (simp_all add: randLevel_ok)
qed

text \<open>
  C7. In a list with maxLevel at least 1, over a random source whose reads succeed,
  randLevel returns a height between 1 and maxLevel, and the height is 1 plus the
  number of leading bytes whose low bit is 1, capped at maxLevel: it is the minimum of
  maxLevel and 1 plus the count of the leading 1-bits in any prefix of the source that
  is at least maxLevel - 1 long.
\<close>

theorem randLevel_height:
  assumes "1 \<le> maxLevel s"
  shows "\<exists>h. randLevel s (smap ReadOk bytes) = Inr h \<and> 1 \<le> h \<and> h \<le> maxLevel s \<and>
           (\<forall>n \<ge> nat (maxLevel s - 1).
              h = min (maxLevel s) (1 + int (length (takeWhile one_bit (stake n bytes)))))"
proof -
  let ?k = "nat (maxLevel s - 1)"
  let ?h = "1 + int (length (takeWhile one_bit (stake ?k bytes)))"
  have r: "randLevel s (smap ReadOk bytes) = Inr ?h"
    by (rule randLevel_ok)
  have up: "1 \<le> ?h" "?h \<le> maxLevel s"
    using randLevel_bounds[OF assms r] by simp_all
  have cap: "?h = min (maxLevel s) (1 + int (length (takeWhile one_bit (stake n bytes))))"
    if "?k \<le> n" for n
  proof -
    have "length (takeWhile one_bit (stake ?k bytes)) =
          min ?k (length (takeWhile one_bit (stake n bytes)))"
      by (rule takeWhile_stake_cap[OF that])
    then show ?thesis using assms by linarith
  qed
  show ?thesis using r up cap by blast
qed

theorem randLevel_height_witness:
  "1 \<le> maxLevel \<lparr>Compare = int_cmp, maxLevel = 4, head = [], heap = []\<rparr> \<and>
   randLevel \<lparr>Compare = int_cmp, maxLevel = 4, head = [], heap = []\<rparr>
     (smap ReadOk (1 ## 3 ## 2 ## sconst 1)) = Inr 3"
  using randLevel_height[of "\<lparr>Compare = int_cmp, maxLevel = 4, head = [], heap = []\<rparr>"
      "1 ## 3 ## 2 ## sconst 1"]
  by (simp add: randLevel_def randLevel_loop.simps)

section \<open>Comparator contract\<close>

lemma cmp_range: "cmp_contract c \<Longrightarrow> c a b = -1 \<or> c a b = 0 \<or> c a b = 1"
  unfolding cmp_contract_def by blast

lemma cmp_flip: "cmp_contract c \<Longrightarrow> c b a = - c a b"
  unfolding cmp_contract_def by blast

lemma cmp_le_trans: "cmp_contract c \<Longrightarrow> c a b \<le> 0 \<Longrightarrow> c b d \<le> 0 \<Longrightarrow> c a d \<le> 0"
  unfolding cmp_contract_def by blast

lemma cmp_refl: "cmp_contract c \<Longrightarrow> c a a = 0"
  using cmp_flip[of c a a] by simp

lemma cmp_lt_le_trans:
  assumes "cmp_contract c" "c a b = -1" "c b d \<le> 0"
  shows "c a d = -1"
proof -
  have le: "c a d \<le> 0" using cmp_le_trans[OF assms(1), of a b d] assms by simp
  have "c a d \<noteq> 0"
  proof
    assume "c a d = 0"
    then have "c d a \<le> 0" using cmp_flip[OF assms(1), of d a] by simp
    from cmp_le_trans[OF assms(1) assms(3) this] have "c b a \<le> 0" .
    then show False using cmp_flip[OF assms(1), of a b] assms(2) by simp
  qed
  then show ?thesis using le cmp_range[OF assms(1), of a d] by auto
qed

lemma cmp_le_lt_trans:
  assumes "cmp_contract c" "c a b \<le> 0" "c b d = -1"
  shows "c a d = -1"
proof -
  have le: "c a d \<le> 0" using cmp_le_trans[OF assms(1), of a b d] assms by simp
  have "c a d \<noteq> 0"
  proof
    assume "c a d = 0"
    then have "c d a \<le> 0" using cmp_flip[OF assms(1), of d a] by simp
    from cmp_le_trans[OF assms(1) this assms(2)] have "c d b \<le> 0" .
    then show False using cmp_flip[OF assms(1), of d b] assms(3) by simp
  qed
  then show ?thesis using le cmp_range[OF assms(1), of a d] by auto
qed

lemma cmp_lt_trans:
  "cmp_contract c \<Longrightarrow> c a b = -1 \<Longrightarrow> c b d = -1 \<Longrightarrow> c a d = -1"
  by (rule cmp_lt_le_trans[of c a b d]) simp_all

lemma cmp_gt_iff: "cmp_contract c \<Longrightarrow> c a b = 1 \<longleftrightarrow> c b a = -1"
  using cmp_flip[of c a b] by auto

lemma cmp_eq_sym: "cmp_contract c \<Longrightarrow> c a b = 0 \<longleftrightarrow> c b a = 0"
  using cmp_flip[of c a b] by auto

section \<open>Store access\<close>

lemma index_HeadSlice:
  "index s HeadSlice L = (if L < length (head s) then Inr (head s ! L) else Inl IndexOutOfRange)"
  by (simp add: index_def slice_elems_def)

lemma index_NextSlice:
  "a < length (heap s) \<Longrightarrow>
   index s (NextSlice a) L =
     (if L < height s a then Inr (nexts (heap s ! a) ! L) else Inl IndexOutOfRange)"
  by (simp add: index_def slice_elems_def deref_def height_def)

lemma cmp_Some: "a < length (heap s) \<Longrightarrow> cmp s (Some a) e = Inr (Compare s (valof s a) e)"
  by (simp add: cmp_def deref_def valof_def)

lemma cmp_None: "cmp s None e = Inr 1"
  by (simp add: cmp_def)

section \<open>The first node of a level\<close>

lemma first_at_Nil [simp]: "first_at s L [] = None"
  by (simp add: first_at_def)

lemma first_at_Cons:
  "first_at s L (a # as) = (if L < height s a then Some a else first_at s L as)"
  by (simp add: first_at_def)

lemma first_at_append:
  "first_at s L (xs @ ys) =
     (case first_at s L xs of Some a \<Rightarrow> Some a | None \<Rightarrow> first_at s L ys)"
  by (induction xs) (simp_all add: first_at_Cons)

lemma first_at_None_iff: "first_at s L as = None \<longleftrightarrow> (\<forall>a \<in> set as. height s a \<le> L)"
  by (induction as) (auto simp: first_at_Cons)

lemma first_at_low: "\<forall>a \<in> set xs. height s a \<le> L \<Longrightarrow> first_at s L (xs @ ys) = first_at s L ys"
  by (simp add: first_at_append first_at_None_iff[THEN iffD2])

lemma first_at_Some:
  "first_at s L as = Some a \<Longrightarrow>
   \<exists>r1 r2. as = r1 @ a # r2 \<and> L < height s a \<and> (\<forall>b \<in> set r1. height s b \<le> L)"
proof (induction as)
  case Nil
  then show ?case by simp
next
  case (Cons x xs)
  show ?case
  proof (cases "L < height s x")
    case True
    then have "a = x" using Cons.prems by (simp add: first_at_Cons)
    then have "x # xs = [] @ a # xs \<and> L < height s a \<and> (\<forall>b \<in> set []. height s b \<le> L)"
      using True by simp
    then show ?thesis by blast
  next
    case False
    then have "first_at s L xs = Some a" using Cons.prems by (simp add: first_at_Cons)
    from Cons.IH[OF this] obtain r1 r2 where
      "xs = r1 @ a # r2" "L < height s a" "\<forall>b \<in> set r1. height s b \<le> L" by blast
    then have "x # xs = (x # r1) @ a # r2 \<and> L < height s a \<and> (\<forall>b \<in> set (x # r1). height s b \<le> L)"
      using False by simp
    then show ?thesis by blast
  qed
qed

section \<open>Reading the invariant\<close>

lemma slice_of_snoc [simp]: "slice_of (xs @ [a]) = NextSlice a"
  by (simp add: slice_of_def)

lemma slice_height_snoc [simp]: "slice_height s (xs @ [a]) = height s a"
  by (simp add: slice_height_def)

lemma slice_of_Nil [simp]: "slice_of [] = HeadSlice"
  by (simp add: slice_of_def)

lemma slice_height_Nil [simp]: "slice_height s [] = length (head s)"
  by (simp add: slice_height_def)

lemma inv_index:
  "skiplist_inv s (p @ q) \<Longrightarrow> L < slice_height s p \<Longrightarrow>
   index s (slice_of p) L = Inr (first_at s L q)"
  unfolding skiplist_inv_def by blast

lemma inv_addr: "skiplist_inv s as \<Longrightarrow> a \<in> set as \<Longrightarrow> a < length (heap s)"
  unfolding skiplist_inv_def by auto

lemma inv_height: "skiplist_inv s as \<Longrightarrow> a \<in> set as \<Longrightarrow> 1 \<le> height s a"
  unfolding skiplist_inv_def by auto

lemma inv_sorted:
  "skiplist_inv s as \<Longrightarrow> sorted_wrt (\<lambda>a b. Compare s (valof s a) (valof s b) = -1) as"
  unfolding skiplist_inv_def by blast

lemma inv_before:
  assumes "skiplist_inv s (p @ r1 @ a # r2)" and "b \<in> set r1"
  shows "Compare s (valof s b) (valof s a) = -1"
  using inv_sorted[OF assms(1)] assms(2) by (auto simp: sorted_wrt_append)

lemma inv_after:
  assumes "skiplist_inv s (p @ r1 @ a # r2)" and "b \<in> set r2"
  shows "Compare s (valof s a) (valof s b) = -1"
  using inv_sorted[OF assms(1)] assms(2) by (auto simp: sorted_wrt_append)

section \<open>Contains\<close>

lemma contains_loop_correct:
  assumes "cmp_contract (Compare s)"
  shows "skiplist_inv s (pre @ rest) \<Longrightarrow> L < slice_height s pre \<Longrightarrow>
         contains_loop s e (slice_of pre) L =
           Some (Inr (\<exists>a \<in> set rest. Compare s (valof s a) e = 0))"
proof (induction "length rest + L" arbitrary: pre rest L rule: less_induct)
  case less
  note inv = less.prems(1) and L = less.prems(2)
  let ?c = "Compare s"
  have idx: "index s (slice_of pre) L = Inr (first_at s L rest)"
    by (rule inv_index[OF inv L])
  show ?case
  proof (cases "first_at s L rest")
    case None
    show ?thesis
    proof (cases "L = 0")
      case True
      have "\<forall>a \<in> set rest. height s a \<le> 0"
        using None True by (simp add: first_at_None_iff)
      moreover have "\<forall>a \<in> set rest. 1 \<le> height s a"
        using inv_height[OF inv] by simp
      ultimately have "rest = []" by (cases rest) auto
      then show ?thesis
        using idx None True
        by (subst contains_loop.simps) (simp add: cmp_None contains_final_def)
    next
      case False
      have "contains_loop s e (slice_of pre) (L - 1) =
              Some (Inr (\<exists>a \<in> set rest. ?c (valof s a) e = 0))"
        using False L by (intro less.hyps[OF _ inv]) auto
      then show ?thesis
        using idx None False
        by (subst contains_loop.simps) (simp add: cmp_None)
    qed
  next
    case (Some a)
    from first_at_Some[OF Some] obtain r1 r2 where
      rest: "rest = r1 @ a # r2" and ha: "L < height s a"
      and low: "\<forall>b \<in> set r1. height s b \<le> L" by blast
    have a_in: "a < length (heap s)"
      using inv_addr[OF inv] rest by simp
    have cmpa: "cmp s (Some a) e = Inr (?c (valof s a) e)"
      by (rule cmp_Some[OF a_in])
    have inv': "skiplist_inv s (pre @ r1 @ a # r2)" using inv rest by simp
    consider (lt) "?c (valof s a) e = -1" | (eq) "?c (valof s a) e = 0"
      | (gt) "?c (valof s a) e = 1"
      using cmp_range[OF assms] by blast
    then show ?thesis
    proof cases
      case lt
      have inv2: "skiplist_inv s ((pre @ r1 @ [a]) @ r2)" using inv rest by simp
      have "contains_loop s e (slice_of (pre @ r1 @ [a])) L =
              Some (Inr (\<exists>b \<in> set r2. ?c (valof s b) e = 0))"
        using ha rest by (intro less.hyps[OF _ inv2]) (auto simp: slice_height_def)
      then have rec: "contains_loop s e (NextSlice a) L =
              Some (Inr (\<exists>b \<in> set r2. ?c (valof s b) e = 0))"
        by (simp add: slice_of_def)
      have "?c (valof s b) e = -1" if "b \<in> set r1" for b
        using cmp_lt_trans[OF assms inv_before[OF inv' that] lt] .
      then have "(\<exists>b \<in> set rest. ?c (valof s b) e = 0) = (\<exists>b \<in> set r2. ?c (valof s b) e = 0)"
        using lt rest by auto
      then show ?thesis
        using idx Some cmpa lt rec
        by (subst contains_loop.simps) simp
    next
      case eq
      have "\<exists>b \<in> set rest. ?c (valof s b) e = 0" using eq rest by auto
      then show ?thesis
        using idx Some cmpa eq
        by (subst contains_loop.simps) simp
    next
      case gt
      show ?thesis
      proof (cases "L = 0")
        case True
        have ea: "?c e (valof s a) = -1" using gt cmp_gt_iff[OF assms] by blast
        have "r1 = []"
        proof (cases r1)
          case (Cons x xs)
          then have "height s x \<le> 0" using low True by simp
          moreover have "1 \<le> height s x" using inv_height[OF inv] rest Cons by simp
          ultimately show ?thesis by simp
        qed simp
        have "?c (valof s b) e = 1" if "b \<in> set r2" for b
          using cmp_lt_trans[OF assms ea inv_after[OF inv' that]] cmp_gt_iff[OF assms] by blast
        then have "\<not> (\<exists>b \<in> set rest. ?c (valof s b) e = 0)"
          using gt rest \<open>r1 = []\<close> by auto
        then show ?thesis
          using idx Some cmpa gt True
          by (subst contains_loop.simps) (simp add: contains_final_def)
      next
        case False
        have "contains_loop s e (slice_of pre) (L - 1) =
                Some (Inr (\<exists>a \<in> set rest. ?c (valof s a) e = 0))"
          using False L by (intro less.hyps[OF _ inv]) auto
        then show ?thesis
          using idx Some cmpa gt False
          by (subst contains_loop.simps) simp
      qed
    qed
  qed
qed

lemma Contains_inv:
  assumes "cmp_contract (Compare s)" and "skiplist_inv s as"
  shows "Contains s e = Some (Inr (\<exists>a \<in> set as. Compare s (valof s a) e = 0))"
proof -
  have m: "1 \<le> maxLevel s" and len: "length (head s) = nat (maxLevel s)"
    using assms(2) by (simp_all add: skiplist_inv_def)
  have "nat (maxLevel s - 1) < slice_height s []" using m len by simp
  from contains_loop_correct[OF assms(1) _ this, of as e] assms(2)
  have "contains_loop s e HeadSlice (nat (maxLevel s - 1)) =
          Some (Inr (\<exists>a \<in> set as. Compare s (valof s a) e = 0))"
    by simp
  then show ?thesis using m by (simp add: Contains_def)
qed

section \<open>The search of Insert\<close>

lemma slice_height_le:
  assumes "skiplist_inv s (pre @ rest)"
  shows "slice_height s pre \<le> nat (maxLevel s)"
proof (cases "pre = []")
  case True
  then show ?thesis using assms by (simp add: skiplist_inv_def)
next
  case False
  then have "last pre \<in> set (pre @ rest)" by simp
  then have "last pre < length (heap s)" using inv_addr[OF assms] by blast
  then have "int (height s (last pre)) \<le> maxLevel s"
    using assms unfolding skiplist_inv_def by blast
  then show ?thesis using False by (simp add: slice_height_def)
qed

lemma upd_ok_here: "L < slice_height s pre \<Longrightarrow> upd_ok s pre L (Some (slice_of pre, L))"
  unfolding upd_ok_def by (intro exI[of _ pre] exI[of _ "[]"]) simp

lemma upd_ok_extend:
  assumes "upd_ok s pre j u" and "\<forall>b \<in> set xs. height s b \<le> j"
  shows "upd_ok s (pre @ xs) j u"
proof -
  from assms(1) obtain p mid where
    "pre = p @ mid" "u = Some (slice_of p, j)" "j < slice_height s p"
    "\<forall>b \<in> set mid. height s b \<le> j"
    unfolding upd_ok_def by blast
  then have "pre @ xs = p @ (mid @ xs) \<and> u = Some (slice_of p, j) \<and> j < slice_height s p \<and>
             (\<forall>b \<in> set (mid @ xs). height s b \<le> j)"
    using assms(2) by auto
  then show ?thesis unfolding upd_ok_def by blast
qed

lemma insert_loop_correct:
  assumes c: "cmp_contract (Compare s)"
  shows "skiplist_inv s (pre @ rest) \<Longrightarrow> L < slice_height s pre \<Longrightarrow>
         \<forall>a \<in> set pre. Compare s (valof s a) e = -1 \<Longrightarrow>
         length updates = nat (maxLevel s) \<Longrightarrow>
         \<forall>j. L < j \<longrightarrow> j < nat (maxLevel s) \<longrightarrow>
             upd_ok s pre j (updates ! j) \<and>
             (\<forall>b \<in> set rest. j < height s b \<longrightarrow> Compare s (valof s b) e = 1) \<Longrightarrow>
         insert_post s e rnd (pre @ rest) (insert_loop s e rnd (slice_of pre) L updates)"
proof (induction "length rest + L" arbitrary: pre rest L updates rule: less_induct)
  case less
  note inv = less.prems(1) and L = less.prems(2) and pre_lt = less.prems(3)
    and len = less.prems(4) and upd = less.prems(5)
  let ?c = "Compare s"
  let ?M = "nat (maxLevel s)"
  let ?upd' = "updates[L := Some (slice_of pre, L)]"
  have idx: "index s (slice_of pre) L = Inr (first_at s L rest)"
    by (rule inv_index[OF inv L])
  have LM: "L < ?M" using slice_height_le[OF inv] L by simp
  then have Llen: "L < length updates" using len by simp
  have len': "length ?upd' = ?M" using len by simp
  have upd'_here: "upd_ok s pre L (?upd' ! L)"
    using Llen upd_ok_here[OF L] by simp
  have upd'_above: "upd_ok s pre j (?upd' ! j)" if "L < j" "j < ?M" for j
    using upd that by simp
  have upd'_all: "\<forall>j < ?M. upd_ok s pre j (?upd' ! j)" if "L = 0"
  proof (intro allI impI)
    fix j assume "j < ?M"
    show "upd_ok s pre j (?upd' ! j)"
      using upd'_here upd'_above[of j] \<open>j < ?M\<close> that by (cases "j = 0") auto
  qed
  show ?case
  proof (cases "first_at s L rest")
    case None
    have low: "\<forall>b \<in> set rest. height s b \<le> L"
      using None by (simp add: first_at_None_iff)
    show ?thesis
    proof (cases "L = 0")
      case True
      have "\<forall>a \<in> set rest. 1 \<le> height s a"
        using inv_height[OF inv] by simp
      then have "rest = []" using low True by (cases rest) auto
      have res: "insert_loop s e rnd (slice_of pre) L updates = Some (insert_new s e ?upd' rnd)"
        using idx None True Llen
        by (subst insert_loop.simps) (simp add: cmp_None)
      have "(\<forall>a \<in> set (pre @ rest). ?c (valof s a) e \<noteq> 0) \<and>
            pre @ rest = pre @ [] \<and> (\<forall>a \<in> set pre. ?c (valof s a) e = -1) \<and>
            (\<forall>b \<in> set []. ?c (valof s b) e = 1) \<and> length ?upd' = ?M \<and>
            (\<forall>j < ?M. upd_ok s pre j (?upd' ! j))"
        using \<open>rest = []\<close> pre_lt len' upd'_all[OF True] by auto
      then show ?thesis unfolding insert_post_def res by blast
    next
      case False
      have res: "insert_loop s e rnd (slice_of pre) L updates =
                 insert_loop s e rnd (slice_of pre) (L - 1) ?upd'"
        using idx None False Llen
        by (subst insert_loop.simps) (simp add: cmp_None)
      have "insert_post s e rnd (pre @ rest) (insert_loop s e rnd (slice_of pre) (L - 1) ?upd')"
      proof (rule less.hyps[OF _ inv _ pre_lt len'])
        show "length rest + (L - 1) < length rest + L" using False by simp
        show "L - 1 < slice_height s pre" using L by simp
        show "\<forall>j. L - 1 < j \<longrightarrow> j < ?M \<longrightarrow>
             upd_ok s pre j (?upd' ! j) \<and>
             (\<forall>b \<in> set rest. j < height s b \<longrightarrow> ?c (valof s b) e = 1)"
        proof (intro allI impI)
          fix j assume j: "L - 1 < j" "j < ?M"
          show "upd_ok s pre j (?upd' ! j) \<and>
             (\<forall>b \<in> set rest. j < height s b \<longrightarrow> ?c (valof s b) e = 1)"
          proof (cases "j = L")
            case True
            then show ?thesis using upd'_here low by auto
          next
            case False
            then have "L < j" using j by simp
            then show ?thesis using upd'_above[OF _ j(2)] upd j(2) by simp
          qed
        qed
      qed
      then show ?thesis by (simp add: res)
    qed
  next
    case (Some a)
    from first_at_Some[OF Some] obtain r1 r2 where
      rest: "rest = r1 @ a # r2" and ha: "L < height s a"
      and low: "\<forall>b \<in> set r1. height s b \<le> L" by blast
    have a_in: "a < length (heap s)"
      using inv_addr[OF inv] rest by simp
    have cmpa: "cmp s (Some a) e = Inr (?c (valof s a) e)"
      by (rule cmp_Some[OF a_in])
    have inv': "skiplist_inv s (pre @ r1 @ a # r2)" using inv rest by simp
    consider (lt) "?c (valof s a) e = -1" | (eq) "?c (valof s a) e = 0"
      | (gt) "?c (valof s a) e = 1"
      using cmp_range[OF c] by blast
    then show ?thesis
    proof cases
      case lt
      have r1_lt: "?c (valof s b) e = -1" if "b \<in> set r1" for b
        using cmp_lt_trans[OF c inv_before[OF inv' that] lt] .
      have res: "insert_loop s e rnd (slice_of pre) L updates =
                 insert_loop s e rnd (slice_of (pre @ r1 @ [a])) L updates"
        using idx Some cmpa lt
        by (subst insert_loop.simps) (simp add: slice_of_def)
      have inv2: "skiplist_inv s ((pre @ r1 @ [a]) @ r2)" using inv rest by simp
      have "insert_post s e rnd ((pre @ r1 @ [a]) @ r2)
              (insert_loop s e rnd (slice_of (pre @ r1 @ [a])) L updates)"
      proof (rule less.hyps[OF _ inv2 _ _ len])
        show "length r2 + L < length rest + L" using rest by simp
        show "L < slice_height s (pre @ r1 @ [a])" using ha by (simp add: slice_height_def)
        show "\<forall>x \<in> set (pre @ r1 @ [a]). ?c (valof s x) e = -1"
          using pre_lt r1_lt lt by auto
        show "\<forall>j. L < j \<longrightarrow> j < ?M \<longrightarrow>
             upd_ok s (pre @ r1 @ [a]) j (updates ! j) \<and>
             (\<forall>b \<in> set r2. j < height s b \<longrightarrow> ?c (valof s b) e = 1)"
        proof (intro allI impI)
          fix j assume j: "L < j" "j < ?M"
          from upd j have ok: "upd_ok s pre j (updates ! j)"
            and ab: "\<forall>b \<in> set rest. j < height s b \<longrightarrow> ?c (valof s b) e = 1" by auto
          have "height s b \<le> j" if "b \<in> set (r1 @ [a])" for b
          proof (rule ccontr)
            assume "\<not> height s b \<le> j"
            moreover have "b \<in> set rest" using that rest by auto
            ultimately have "?c (valof s b) e = 1" using ab by auto
            moreover have "?c (valof s b) e = -1" using that r1_lt lt by auto
            ultimately show False by simp
          qed
          then have "upd_ok s (pre @ (r1 @ [a])) j (updates ! j)"
            by (intro upd_ok_extend[OF ok]) blast
          then show "upd_ok s (pre @ r1 @ [a]) j (updates ! j) \<and>
             (\<forall>b \<in> set r2. j < height s b \<longrightarrow> ?c (valof s b) e = 1)"
            using ab rest by auto
        qed
      qed
      then show ?thesis using rest by (simp add: res)
    next
      case eq
      have "deref s a = Inr (heap s ! a)" using a_in by (simp add: deref_def)
      then have res: "insert_loop s e rnd (slice_of pre) L updates =
                 Some (Inr (valof s a, set_val s a e))"
        using idx Some cmpa eq
        by (subst insert_loop.simps) (simp add: valof_def set_val_def)
      have "a \<in> set (pre @ rest)" using rest by simp
      then show ?thesis unfolding insert_post_def res using eq by blast
    next
      case gt
      have ea: "?c e (valof s a) = -1" using gt cmp_gt_iff[OF c] by blast
      have r2_gt: "?c (valof s b) e = 1" if "b \<in> set r2" for b
        using cmp_lt_trans[OF c ea inv_after[OF inv' that]] cmp_gt_iff[OF c] by blast
      show ?thesis
      proof (cases "L = 0")
        case True
        have "r1 = []"
        proof (cases r1)
          case (Cons x xs)
          then have "height s x \<le> 0" using low True by simp
          moreover have "1 \<le> height s x" using inv_height[OF inv] rest Cons by simp
          ultimately show ?thesis by simp
        qed simp
        have res: "insert_loop s e rnd (slice_of pre) L updates = Some (insert_new s e ?upd' rnd)"
          using idx Some cmpa gt True Llen
          by (subst insert_loop.simps) simp
        have rest_gt: "\<forall>b \<in> set rest. ?c (valof s b) e = 1"
          using rest \<open>r1 = []\<close> gt r2_gt by auto
        have "(\<forall>a \<in> set (pre @ rest). ?c (valof s a) e \<noteq> 0) \<and>
            pre @ rest = pre @ rest \<and> (\<forall>a \<in> set pre. ?c (valof s a) e = -1) \<and>
            (\<forall>b \<in> set rest. ?c (valof s b) e = 1) \<and> length ?upd' = ?M \<and>
            (\<forall>j < ?M. upd_ok s pre j (?upd' ! j))"
          using pre_lt rest_gt len' upd'_all[OF True] by auto
        then show ?thesis unfolding insert_post_def res by blast
      next
        case False
        have res: "insert_loop s e rnd (slice_of pre) L updates =
                   insert_loop s e rnd (slice_of pre) (L - 1) ?upd'"
          using idx Some cmpa gt False Llen
          by (subst insert_loop.simps) simp
        have "insert_post s e rnd (pre @ rest) (insert_loop s e rnd (slice_of pre) (L - 1) ?upd')"
        proof (rule less.hyps[OF _ inv _ pre_lt len'])
          show "length rest + (L - 1) < length rest + L" using False by simp
          show "L - 1 < slice_height s pre" using L by simp
          show "\<forall>j. L - 1 < j \<longrightarrow> j < ?M \<longrightarrow>
               upd_ok s pre j (?upd' ! j) \<and>
               (\<forall>b \<in> set rest. j < height s b \<longrightarrow> ?c (valof s b) e = 1)"
          proof (intro allI impI)
            fix j assume j: "L - 1 < j" "j < ?M"
            show "upd_ok s pre j (?upd' ! j) \<and>
               (\<forall>b \<in> set rest. j < height s b \<longrightarrow> ?c (valof s b) e = 1)"
            proof (cases "j = L")
              case True
              have "\<forall>b \<in> set rest. L < height s b \<longrightarrow> ?c (valof s b) e = 1"
                using rest low gt r2_gt by auto
              then show ?thesis using upd'_here True by auto
            next
              case False
              then have "L < j" using j by simp
              then show ?thesis using upd'_above[OF _ j(2)] upd j(2) by simp
            qed
          qed
        qed
        then show ?thesis by (simp add: res)
      qed
    qed
  qed
qed

section \<open>Writing a slot\<close>

lemma same_shape_refl: "same_shape s s"
  by (simp add: same_shape_def)

lemma same_shape_trans: "same_shape s s1 \<Longrightarrow> same_shape s1 s2 \<Longrightarrow> same_shape s s2"
  by (simp add: same_shape_def)

lemma store_slot_effect:
  assumes "index s sl i = Inr v0"
  shows "\<exists>s'. store_slot s (sl, i) v = Inr s' \<and> same_shape s s' \<and>
           (\<forall>sl' j. index s' sl' j = (if sl' = sl \<and> j = i then Inr v else index s sl' j))"
proof (cases sl)
  case HeadSlice
  then have i: "i < length (head s)"
    using assms by (simp add: index_HeadSlice split: if_splits)
  let ?s' = "s\<lparr>head := (head s)[i := v]\<rparr>"
  have 1: "store_slot s (sl, i) v = Inr ?s'"
    using HeadSlice i by (simp add: store_slot_def)
  have 2: "same_shape s ?s'"
    by (simp add: same_shape_def valof_def height_def)
  have 3: "index ?s' sl' j = (if sl' = sl \<and> j = i then Inr v else index s sl' j)" for sl' j
    using HeadSlice i
    by (cases sl') (auto simp: index_def slice_elems_def deref_def nth_list_update)
  show ?thesis using 1 2 3 by blast
next
  case (NextSlice a)
  then have a: "a < length (heap s)" and i: "i < length (nexts (heap s ! a))"
    using assms by (auto simp: index_def slice_elems_def deref_def split: if_splits)
  let ?n = "heap s ! a"
  let ?s' = "s\<lparr>heap := (heap s)[a := ?n\<lparr>nexts := (nexts ?n)[i := v]\<rparr>]\<rparr>"
  have 1: "store_slot s (sl, i) v = Inr ?s'"
    using NextSlice a i by (simp add: store_slot_def deref_def)
  have 2: "same_shape s ?s'"
    using a by (auto simp: same_shape_def valof_def height_def nth_list_update)
  have 3: "index ?s' sl' j = (if sl' = sl \<and> j = i then Inr v else index s sl' j)" for sl' j
    using NextSlice a i
    by (cases sl') (auto simp: index_def slice_elems_def deref_def nth_list_update)
  show ?thesis using 1 2 3 by blast
qed

section \<open>The splice loop\<close>

lemma splice_effect:
  "distinct is \<Longrightarrow>
   \<forall>i \<in> set is. i < length updates \<and>
      (\<exists>sl v. updates ! i = Some (sl, i) \<and> sl \<noteq> NextSlice n \<and> index s sl i = Inr v) \<Longrightarrow>
   \<forall>i \<in> set is. \<exists>v. index s (NextSlice n) i = Inr v \<Longrightarrow>
   \<exists>s'. splice s n updates is = Inr s' \<and> same_shape s s' \<and>
      (\<forall>j \<in> set is. \<forall>sl. updates ! j = Some (sl, j) \<longrightarrow>
         index s' (NextSlice n) j = index s sl j \<and> index s' sl j = Inr (Some n)) \<and>
      (\<forall>sl j. j \<notin> set is \<or> (sl \<noteq> NextSlice n \<and> updates ! j \<noteq> Some (sl, j)) \<longrightarrow>
         index s' sl j = index s sl j)"
proof (induction "is" arbitrary: s)
  case Nil
  then show ?case by (simp add: same_shape_refl)
next
  case (Cons i "is")
  from Cons.prems(2) obtain sl v where
    ilen: "i < length updates" and ui: "updates ! i = Some (sl, i)"
    and sln: "sl \<noteq> NextSlice n" and rd: "index s sl i = Inr v" by auto
  from Cons.prems(3) obtain v0 where rn: "index s (NextSlice n) i = Inr v0" by auto
  from store_slot_effect[OF rn, of v] obtain s1 where
    w1: "store_slot s (NextSlice n, i) v = Inr s1" and sh1: "same_shape s s1"
    and ix1: "\<And>sl' j. index s1 sl' j = (if sl' = NextSlice n \<and> j = i then Inr v else index s sl' j)"
    by blast
  have rd1: "index s1 sl i = Inr v" using ix1 sln rd by simp
  from store_slot_effect[OF rd1, of "Some n"] obtain s2 where
    w2: "store_slot s1 (sl, i) (Some n) = Inr s2" and sh2: "same_shape s1 s2"
    and ix2: "\<And>sl' j. index s2 sl' j = (if sl' = sl \<and> j = i then Inr (Some n) else index s1 sl' j)"
    by blast
  have ix: "index s2 sl' j =
      (if sl' = sl \<and> j = i then Inr (Some n)
       else if sl' = NextSlice n \<and> j = i then Inr v else index s sl' j)" for sl' j
    by (simp add: ix1 ix2)
  have inot: "i \<notin> set is" and dis: "distinct is" using Cons.prems(1) by auto
  have p2: "\<forall>k \<in> set is. k < length updates \<and>
      (\<exists>sl v. updates ! k = Some (sl, k) \<and> sl \<noteq> NextSlice n \<and> index s2 sl k = Inr v)"
  proof
    fix k assume k: "k \<in> set is"
    then have "k \<noteq> i" using inot by auto
    then show "k < length updates \<and>
      (\<exists>sl v. updates ! k = Some (sl, k) \<and> sl \<noteq> NextSlice n \<and> index s2 sl k = Inr v)"
      using Cons.prems(2) k by (simp add: ix)
  qed
  have p3: "\<forall>k \<in> set is. \<exists>v. index s2 (NextSlice n) k = Inr v"
  proof
    fix k assume k: "k \<in> set is"
    then have "k \<noteq> i" using inot by auto
    then show "\<exists>v. index s2 (NextSlice n) k = Inr v"
      using Cons.prems(3) k by (simp add: ix)
  qed
  from Cons.IH[OF dis p2 p3] obtain s' where
    r: "splice s2 n updates is = Inr s'" and sh': "same_shape s2 s'"
    and A: "\<And>j sl. j \<in> set is \<Longrightarrow> updates ! j = Some (sl, j) \<Longrightarrow>
         index s' (NextSlice n) j = index s2 sl j \<and> index s' sl j = Inr (Some n)"
    and B: "\<And>sl j. j \<notin> set is \<or> (sl \<noteq> NextSlice n \<and> updates ! j \<noteq> Some (sl, j)) \<Longrightarrow>
         index s' sl j = index s2 sl j"
    by blast
  have res: "splice s n updates (i # is) = Inr s'"
    using ilen ui rd w1 w2 r by simp
  have shape: "same_shape s s'"
    using same_shape_trans[OF same_shape_trans[OF sh1 sh2] sh'] .
  have A': "index s' (NextSlice n) j = index s sl' j \<and> index s' sl' j = Inr (Some n)"
    if "j \<in> set (i # is)" "updates ! j = Some (sl', j)" for j sl'
  proof (cases "j = i")
    case True
    then have "sl' = sl" using that ui by simp
    have "index s' (NextSlice n) i = index s2 (NextSlice n) i"
      using B[of i "NextSlice n"] inot by simp
    moreover have "index s' sl i = index s2 sl i"
      using B[of i sl] inot by simp
    ultimately show ?thesis using True \<open>sl' = sl\<close> sln rd by (simp add: ix)
  next
    case False
    then have "j \<in> set is" using that by simp
    from A[OF this that(2)] False show ?thesis by (simp add: ix)
  qed
  have B': "index s' sl' j = index s sl' j"
    if "j \<notin> set (i # is) \<or> (sl' \<noteq> NextSlice n \<and> updates ! j \<noteq> Some (sl', j))" for sl' j
  proof -
    have "index s' sl' j = index s2 sl' j" using that by (intro B) auto
    moreover have "index s2 sl' j = index s sl' j" using that ui by (auto simp: ix)
    ultimately show ?thesis by simp
  qed
  show ?case using res shape A' B' by blast
qed

section \<open>Allocating and splicing the new node\<close>

lemma insert_new_effect:
  assumes rl: "randLevel s rnd = Inr R"
    and slots: "\<forall>j < nat R. j < length upd \<and>
        (\<exists>sl v. upd ! j = Some (sl, j) \<and> sl \<noteq> NextSlice (length (heap s)) \<and> index s sl j = Inr v)"
  shows "\<exists>s'. insert_new s e upd rnd = Inr (Nil, s') \<and>
      Compare s' = Compare s \<and> maxLevel s' = maxLevel s \<and>
      length (head s') = length (head s) \<and> length (heap s') = Suc (length (heap s)) \<and>
      (\<forall>a < length (heap s). valof s' a = valof s a \<and> height s' a = height s a) \<and>
      valof s' (length (heap s)) = e \<and> height s' (length (heap s)) = nat R \<and>
      (\<forall>j < nat R. \<forall>sl. upd ! j = Some (sl, j) \<longrightarrow>
         index s' (NextSlice (length (heap s))) j = index s sl j \<and>
         index s' sl j = Inr (Some (length (heap s)))) \<and>
      (\<forall>sl j. sl \<noteq> NextSlice (length (heap s)) \<longrightarrow> (nat R \<le> j \<or> upd ! j \<noteq> Some (sl, j)) \<longrightarrow>
         index s' sl j = index s sl j)"
proof -
  let ?n = "length (heap s)"
  let ?s1 = "s\<lparr>heap := heap s @ [\<lparr>val = e, nexts = replicate (nat R) None\<rparr>]\<rparr>"
  have old: "index ?s1 sl j = index s sl j" if "sl \<noteq> NextSlice ?n" for sl j
  proof (cases sl)
    case HeadSlice
    then show ?thesis by (simp add: index_def slice_elems_def)
  next
    case (NextSlice a)
    then have "a \<noteq> ?n" using that by simp
    then show ?thesis using NextSlice
      by (auto simp: index_def slice_elems_def deref_def nth_append)
  qed
  have new: "index ?s1 (NextSlice ?n) j = (if j < nat R then Inr None else Inl IndexOutOfRange)" for j
    by (simp add: index_def slice_elems_def deref_def)
  have v1: "valof ?s1 a = valof s a \<and> height ?s1 a = height s a" if "a < ?n" for a
    using that by (simp add: valof_def height_def nth_append)
  have vn: "valof ?s1 ?n = e \<and> height ?s1 ?n = nat R"
    by (simp add: valof_def height_def)
  have p2: "\<forall>i \<in> set [0..<nat R]. i < length upd \<and>
      (\<exists>sl v. upd ! i = Some (sl, i) \<and> sl \<noteq> NextSlice ?n \<and> index ?s1 sl i = Inr v)"
  proof
    fix i assume "i \<in> set [0..<nat R]"
    then have "i < nat R" by simp
    with slots obtain sl v where "i < length upd" "upd ! i = Some (sl, i)"
      "sl \<noteq> NextSlice ?n" "index s sl i = Inr v" by blast
    then show "i < length upd \<and>
      (\<exists>sl v. upd ! i = Some (sl, i) \<and> sl \<noteq> NextSlice ?n \<and> index ?s1 sl i = Inr v)"
      using old by auto
  qed
  have p3: "\<forall>i \<in> set [0..<nat R]. \<exists>v. index ?s1 (NextSlice ?n) i = Inr v"
    by (simp add: new)
  from splice_effect[OF _ p2 p3] obtain s' where
    r: "splice ?s1 ?n upd [0..<nat R] = Inr s'" and sh: "same_shape ?s1 s'"
    and A: "\<And>j sl. j \<in> set [0..<nat R] \<Longrightarrow> upd ! j = Some (sl, j) \<Longrightarrow>
         index s' (NextSlice ?n) j = index ?s1 sl j \<and> index s' sl j = Inr (Some ?n)"
    and B: "\<And>sl j. j \<notin> set [0..<nat R] \<or> (sl \<noteq> NextSlice ?n \<and> upd ! j \<noteq> Some (sl, j)) \<Longrightarrow>
         index s' sl j = index ?s1 sl j"
    by auto
  have res: "insert_new s e upd rnd = Inr (Nil, s')"
    using rl r by (simp add: insert_new_def Let_def)
  have shape: "Compare s' = Compare s" "maxLevel s' = maxLevel s"
    "length (head s') = length (head s)" "length (heap s') = Suc ?n"
    using sh by (simp_all add: same_shape_def)
  have vals: "\<forall>a < ?n. valof s' a = valof s a \<and> height s' a = height s a"
    using sh v1 by (simp add: same_shape_def)
  have valn: "valof s' ?n = e \<and> height s' ?n = nat R"
    using sh vn by (simp add: same_shape_def)
  have A': "\<forall>j < nat R. \<forall>sl. upd ! j = Some (sl, j) \<longrightarrow>
         index s' (NextSlice ?n) j = index s sl j \<and> index s' sl j = Inr (Some ?n)"
  proof (intro allI impI)
    fix j sl assume j: "j < nat R" and u: "upd ! j = Some (sl, j)"
    from slots j u have "sl \<noteq> NextSlice ?n" by auto
    then show "index s' (NextSlice ?n) j = index s sl j \<and> index s' sl j = Inr (Some ?n)"
      using A[of j sl] j u old by simp
  qed
  have B': "\<forall>sl j. sl \<noteq> NextSlice ?n \<longrightarrow> (nat R \<le> j \<or> upd ! j \<noteq> Some (sl, j)) \<longrightarrow>
         index s' sl j = index s sl j"
  proof (intro allI impI)
    fix sl j assume sl: "sl \<noteq> NextSlice ?n" and j: "nat R \<le> j \<or> upd ! j \<noteq> Some (sl, j)"
    have "index s' sl j = index ?s1 sl j" using sl j by (intro B) auto
    then show "index s' sl j = index s sl j" using old[OF sl] by simp
  qed
  show ?thesis using res shape vals valn A' B' by blast
qed

section \<open>Prefixes of the node list and their slices\<close>

lemma slice_of_prefix_unique:
  assumes d: "distinct (p @ us)" and eq: "p @ us = pL @ mid" and sl: "slice_of p = slice_of pL"
  shows "p = pL"
proof (cases "p = []")
  case True
  then show ?thesis using sl by (auto simp: slice_of_def split: if_splits)
next
  case False
  then have pL: "pL \<noteq> []" and last: "last p = last pL"
    using sl by (auto simp: slice_of_def split: if_splits)
  from eq obtain ws where "(p = pL @ ws \<and> ws @ us = mid) \<or> (p @ ws = pL \<and> us = ws @ mid)"
    by (auto simp: append_eq_append_conv2)
  then show ?thesis
  proof
    assume a: "p = pL @ ws \<and> ws @ us = mid"
    show ?thesis
    proof (cases "ws = []")
      case True
      then show ?thesis using a by simp
    next
      case False
      then have "last p \<in> set ws" using a by simp
      moreover have "last pL \<in> set pL" using pL by simp
      ultimately show ?thesis using d a last by auto
    qed
  next
    assume a: "p @ ws = pL \<and> us = ws @ mid"
    show ?thesis
    proof (cases "ws = []")
      case True
      then show ?thesis using a by simp
    next
      case False
      then have "last pL \<in> set ws" using a by auto
      moreover have "last p \<in> set p" using \<open>p \<noteq> []\<close> by simp
      ultimately show ?thesis using d a last by auto
    qed
  qed
qed

lemma high_between:
  assumes d: "distinct (p @ us)" and eq: "p @ us = pL @ mid" and ne: "p \<noteq> pL"
    and hL: "L < slice_height s pL" and hp: "L < slice_height s p"
    and low: "\<forall>b \<in> set mid. height s b \<le> L"
  shows "\<exists>b \<in> set us. L < height s b"
proof -
  from eq obtain ws where "(p = pL @ ws \<and> ws @ us = mid) \<or> (p @ ws = pL \<and> us = ws @ mid)"
    by (auto simp: append_eq_append_conv2)
  then show ?thesis
  proof
    assume a: "p = pL @ ws \<and> ws @ us = mid"
    then have "ws \<noteq> []" using ne by auto
    then have "last p \<in> set mid" "p \<noteq> []" using a by auto
    then have "height s (last p) \<le> L" "L < height s (last p)"
      using low hp by (auto simp: slice_height_def)
    then show ?thesis by simp
  next
    assume a: "p @ ws = pL \<and> us = ws @ mid"
    then have "ws \<noteq> []" using ne by auto
    then have "last pL \<in> set us" "pL \<noteq> []" using a by auto
    then show ?thesis using hL by (auto simp: slice_height_def)
  qed
qed

lemma first_at_cong:
  "\<forall>a \<in> set xs. height s' a = height s a \<Longrightarrow> first_at s' L xs = first_at s L xs"
  by (induction xs) (simp_all add: first_at_Cons)

lemma first_at_high:
  "\<exists>b \<in> set xs. L < height s b \<Longrightarrow> first_at s L (xs @ ys) = first_at s L xs"
  by (auto simp: first_at_append first_at_None_iff split: option.splits)

section \<open>A fresh insertion keeps the invariant\<close>

lemma upd_ok_slot:
  assumes inv: "skiplist_inv s (pre @ rest)" and ok: "upd_ok s pre j u"
  shows "\<exists>p mid. pre = p @ mid \<and> u = Some (slice_of p, j) \<and> j < slice_height s p \<and>
           (\<forall>b \<in> set mid. height s b \<le> j) \<and>
           slice_of p \<noteq> NextSlice (length (heap s)) \<and>
           index s (slice_of p) j = Inr (first_at s j rest)"
proof -
  from ok obtain p mid where pm: "pre = p @ mid" "u = Some (slice_of p, j)"
    "j < slice_height s p" "\<forall>b \<in> set mid. height s b \<le> j"
    unfolding upd_ok_def by blast
  have "slice_of p \<noteq> NextSlice (length (heap s))"
  proof (cases "p = []")
    case False
    then have "last p \<in> set (pre @ rest)" using pm(1) by simp
    then have "last p < length (heap s)" using inv_addr[OF inv] by blast
    then show ?thesis using False by (simp add: slice_of_def)
  qed simp
  moreover have "index s (slice_of p) j = Inr (first_at s j (mid @ rest))"
    using inv_index[of s p "mid @ rest" j] inv pm by simp
  then have "index s (slice_of p) j = Inr (first_at s j rest)"
    using first_at_low[OF pm(4)] by simp
  ultimately show ?thesis using pm by blast
qed

lemma insert_fresh_inv:
  assumes c: "cmp_contract (Compare s)" and inv: "skiplist_inv s (pre @ rest)"
    and pre_lt: "\<forall>a \<in> set pre. Compare s (valof s a) e = -1"
    and rest_gt: "\<forall>b \<in> set rest. Compare s (valof s b) e = 1"
    and len: "length upd = nat (maxLevel s)"
    and ok: "\<forall>j < nat (maxLevel s). upd_ok s pre j (upd ! j)"
    and rl: "randLevel s rnd = Inr R" and R1: "1 \<le> R" and RM: "R \<le> maxLevel s"
  shows "\<exists>s'. insert_new s e upd rnd = Inr (Nil, s') \<and>
           skiplist_inv s' (pre @ length (heap s) # rest) \<and>
           Compare s' = Compare s \<and> maxLevel s' = maxLevel s \<and>
           (\<forall>a < length (heap s). valof s' a = valof s a) \<and>
           valof s' (length (heap s)) = e"
proof -
  let ?n = "length (heap s)"
  let ?M = "nat (maxLevel s)"
  let ?c = "Compare s"
  have slotj: "\<exists>p mid. pre = p @ mid \<and> upd ! j = Some (slice_of p, j) \<and> j < slice_height s p \<and>
           (\<forall>b \<in> set mid. height s b \<le> j) \<and> slice_of p \<noteq> NextSlice ?n \<and>
           index s (slice_of p) j = Inr (first_at s j rest)" if "j < nat R" for j
    using upd_ok_slot[OF inv] ok that RM by simp
  have slots: "\<forall>j < nat R. j < length upd \<and>
        (\<exists>sl v. upd ! j = Some (sl, j) \<and> sl \<noteq> NextSlice ?n \<and> index s sl j = Inr v)"
  proof (intro allI impI)
    fix j assume j: "j < nat R"
    then have "j < length upd" using len RM by simp
    then show "j < length upd \<and>
        (\<exists>sl v. upd ! j = Some (sl, j) \<and> sl \<noteq> NextSlice ?n \<and> index s sl j = Inr v)"
      using slotj[OF j] by blast
  qed
  from insert_new_effect[OF rl slots, of e] obtain s' where
    res: "insert_new s e upd rnd = Inr (Nil, s')"
    and cmp': "Compare s' = Compare s" and ml': "maxLevel s' = maxLevel s"
    and hd': "length (head s') = length (head s)" and hp': "length (heap s') = Suc ?n"
    and old: "\<And>a. a < ?n \<Longrightarrow> valof s' a = valof s a \<and> height s' a = height s a"
    and vn: "valof s' ?n = e" and hn: "height s' ?n = nat R"
    and A: "\<And>j sl. j < nat R \<Longrightarrow> upd ! j = Some (sl, j) \<Longrightarrow>
         index s' (NextSlice ?n) j = index s sl j \<and> index s' sl j = Inr (Some ?n)"
    and B: "\<And>sl j. sl \<noteq> NextSlice ?n \<Longrightarrow> nat R \<le> j \<or> upd ! j \<noteq> Some (sl, j) \<Longrightarrow>
         index s' sl j = index s sl j"
    by blast
  have set_old: "set (pre @ rest) = {..<?n}" and dist: "distinct (pre @ rest)"
    using inv by (simp_all add: skiplist_inv_def)
  have in_old: "a < ?n" if "a \<in> set (pre @ rest)" for a
    using that set_old by auto
  have fa_old: "first_at s' L xs = first_at s L xs" if "set xs \<subseteq> set (pre @ rest)" for L xs
    using that in_old old by (intro first_at_cong) blast
  have sh_old: "slice_height s' p = slice_height s p"
    if "p = [] \<or> last p \<in> set (pre @ rest)" for p
    using that in_old old hd' by (auto simp: slice_height_def)

  have slot_clause: "index s' (slice_of p) L = Inr (first_at s' L q)"
    if split: "pre @ ?n # rest = p @ q" and L: "L < slice_height s' p" for p q L
  proof -
    from split[unfolded append_eq_append_conv2] obtain us0 where
      us0: "(pre = p @ us0 \<and> us0 @ ?n # rest = q) \<or> (pre @ us0 = p \<and> ?n # rest = us0 @ q)"
      by blast
    have "\<exists>us. (pre = p @ us \<and> us @ ?n # rest = q) \<or>
               (pre @ us = p \<and> ?n # rest = us @ q \<and> us \<noteq> [])"
    proof (cases "us0 = []")
      case True
      then have "pre = p @ [] \<and> [] @ ?n # rest = q" using us0 by auto
      then show ?thesis by blast
    next
      case False
      then show ?thesis using us0 by blast
    qed
    then obtain us where
      "(pre = p @ us \<and> us @ ?n # rest = q) \<or> (pre @ us = p \<and> ?n # rest = us @ q \<and> us \<noteq> [])"
      by blast
    then show ?thesis
    proof
      assume a: "pre = p @ us \<and> us @ ?n # rest = q"
      then have pre: "pre = p @ us" and q: "q = us @ ?n # rest" by auto
      have plast: "p = [] \<or> last p \<in> set (pre @ rest)" using pre by auto
      have Ls: "L < slice_height s p" using L sh_old[OF plast] by simp
      have notn: "slice_of p \<noteq> NextSlice ?n"
      proof (cases "p = []")
        case False
        then have "last p < ?n" using plast in_old by blast
        then show ?thesis using False by (simp add: slice_of_def)
      qed simp
      have oldidx: "index s (slice_of p) L = Inr (first_at s L (us @ rest))"
        using inv_index[of s p "us @ rest" L] inv pre Ls by simp
      have us_old: "set us \<subseteq> set (pre @ rest)" using pre by auto
      show ?thesis
      proof (cases "L < nat R")
        case True
        from slotj[OF True] obtain pL mid where pL: "pre = pL @ mid"
          "upd ! L = Some (slice_of pL, L)" "L < slice_height s pL"
          "\<forall>b \<in> set mid. height s b \<le> L" by blast
        have d: "distinct (p @ us)" using dist pre by auto
        have eq: "p @ us = pL @ mid" using pre pL(1) by simp
        show ?thesis
        proof (cases "slice_of p = slice_of pL")
          case True
          then have "p = pL" using slice_of_prefix_unique[OF d eq] by simp
          then have "us = mid" using eq by simp
          have "index s' (slice_of p) L = Inr (Some ?n)"
            using A[OF \<open>L < nat R\<close> pL(2)] True by simp
          moreover have "first_at s' L (us @ ?n # rest) = Some ?n"
          proof -
            have "\<forall>b \<in> set us. height s' b \<le> L"
              using pL(4) \<open>us = mid\<close> us_old in_old old by auto
            from first_at_low[OF this] show ?thesis
              using hn \<open>L < nat R\<close> by (simp add: first_at_Cons)
          qed
          ultimately show ?thesis using q by simp
        next
          case False
          then have "p \<noteq> pL" by auto
          from high_between[OF d eq this pL(3) Ls pL(4)]
          have high: "\<exists>b \<in> set us. L < height s b" .
          then have high': "\<exists>b \<in> set us. L < height s' b"
            using us_old in_old old by force
          have "index s' (slice_of p) L = index s (slice_of p) L"
            using False pL(2) by (intro B[OF notn]) auto
          moreover have "first_at s' L (us @ ?n # rest) = first_at s' L us"
            by (rule first_at_high[OF high'])
          moreover have "first_at s L (us @ rest) = first_at s L us"
            by (rule first_at_high[OF high])
          moreover have "first_at s' L us = first_at s L us"
            by (rule fa_old[OF us_old])
          ultimately show ?thesis using oldidx q by simp
        qed
      next
        case False
        have "index s' (slice_of p) L = index s (slice_of p) L"
          using False by (intro B[OF notn]) auto
        moreover have "first_at s' L (us @ ?n # rest) = first_at s L (us @ rest)"
        proof -
          have "first_at s' L (?n # rest) = first_at s' L rest"
            using False hn by (simp add: first_at_Cons)
          then have "first_at s' L (us @ ?n # rest) = first_at s' L (us @ rest)"
            by (auto simp: first_at_append split: option.splits)
          also have "\<dots> = first_at s L (us @ rest)"
            using us_old by (intro fa_old) auto
          finally show ?thesis .
        qed
        ultimately show ?thesis using oldidx q by simp
      qed
    next
      assume a: "pre @ us = p \<and> ?n # rest = us @ q \<and> us \<noteq> []"
      then obtain us' where us: "us = ?n # us'" and rest: "rest = us' @ q"
        by (cases us) auto
      have p: "p = pre @ ?n # us'" using a us by simp
      have q_old: "set q \<subseteq> set (pre @ rest)" using rest by auto
      show ?thesis
      proof (cases "us' = []")
        case True
        then have pn: "slice_of p = NextSlice ?n" and "q = rest"
          using p rest by (simp_all add: slice_of_def)
        have "L < nat R" using L p True hn by (simp add: slice_height_def)
        from slotj[OF this] obtain pL mid where pL: "pre = pL @ mid"
          "upd ! L = Some (slice_of pL, L)"
          "index s (slice_of pL) L = Inr (first_at s L rest)" by blast
        have "index s' (NextSlice ?n) L = Inr (first_at s L rest)"
          using A[OF \<open>L < nat R\<close> pL(2)] pL(3) by simp
        moreover have "first_at s' L rest = first_at s L rest"
          by (intro fa_old) auto
        ultimately show ?thesis using pn \<open>q = rest\<close> by simp
      next
        case False
        then have lp: "last p = last us'" "last us' \<in> set rest"
          using p rest by auto
        let ?b = "last us'"
        have sp: "slice_of p = NextSlice ?b" using p lp by (simp add: slice_of_def)
        have b_old: "?b \<in> set (pre @ rest)" using lp by simp
        have notn: "slice_of p \<noteq> NextSlice ?n" using sp in_old[OF b_old] by simp
        have Ls: "L < slice_height s p" using L sh_old[of p] lp b_old by simp
        have split_old: "pre @ rest = (pre @ us') @ q" using rest by simp
        have sp2: "slice_of (pre @ us') = slice_of p" "slice_height s (pre @ us') = slice_height s p"
          using False p by (simp_all add: slice_of_def slice_height_def)
        have oldidx: "index s (slice_of p) L = Inr (first_at s L q)"
          using inv_index[of s "pre @ us'" q L] inv split_old sp2 Ls by simp
        have "upd ! L \<noteq> Some (slice_of p, L)" if "L < nat R"
        proof -
          from slotj[OF that] obtain pL mid where pL: "pre = pL @ mid"
            "upd ! L = Some (slice_of pL, L)" by blast
          have "slice_of pL \<noteq> NextSlice ?b"
          proof (cases "pL = []")
            case False
            then have "last pL \<in> set pre" using pL(1) by simp
            then have "last pL \<noteq> ?b" using lp(2) dist by auto
            then show ?thesis using False by (simp add: slice_of_def)
          qed simp
          then show ?thesis using pL(2) sp by simp
        qed
        then have "index s' (slice_of p) L = index s (slice_of p) L"
          by (intro B[OF notn]) auto
        moreover have "first_at s' L q = first_at s L q"
          by (rule fa_old[OF q_old])
        ultimately show ?thesis using oldidx by simp
      qed
    qed
  qed

  have m1: "1 \<le> maxLevel s'" and hl: "length (head s') = nat (maxLevel s')"
    using inv ml' hd' by (simp_all add: skiplist_inv_def)
  have d': "distinct (pre @ ?n # rest)"
    using dist in_old by auto
  have set': "set (pre @ ?n # rest) = {..<length (heap s')}"
    using set_old hp' by (auto simp: lessThan_Suc)
  have hts: "\<forall>a < length (heap s'). 1 \<le> height s' a \<and> int (height s' a) \<le> maxLevel s'"
  proof (intro allI impI)
    fix a assume "a < length (heap s')"
    then consider "a < ?n" | "a = ?n" using hp' by linarith
    then show "1 \<le> height s' a \<and> int (height s' a) \<le> maxLevel s'"
    proof cases
      case 1
      then show ?thesis using inv old ml' unfolding skiplist_inv_def by auto
    next
      case 2
      then show ?thesis using hn R1 RM ml' by simp
    qed
  qed
  have sorted': "sorted_wrt (\<lambda>a b. Compare s' (valof s' a) (valof s' b) = -1) (pre @ ?n # rest)"
  proof -
    let ?P = "\<lambda>a b. ?c (valof s a) (valof s b) = -1"
    let ?P' = "\<lambda>a b. Compare s' (valof s' a) (valof s' b) = -1"
    have so: "sorted_wrt ?P (pre @ rest)" by (rule inv_sorted[OF inv])
    have agree: "?P' a b = ?P a b" if "a \<in> set (pre @ rest)" "b \<in> set (pre @ rest)" for a b
      using that in_old old cmp' by simp
    have "sorted_wrt ?P' pre"
      using so agree by (auto simp: sorted_wrt_append intro: sorted_wrt_mono_rel[of pre ?P ?P'])
    moreover have "sorted_wrt ?P' rest"
      using so agree by (auto simp: sorted_wrt_append intro: sorted_wrt_mono_rel[of rest ?P ?P'])
    moreover have "?P' a ?n" if "a \<in> set pre" for a
      using that pre_lt in_old old cmp' vn by simp
    moreover have "?P' ?n b" if "b \<in> set rest" for b
      using that rest_gt in_old old cmp' vn cmp_gt_iff[OF c] by simp
    moreover have "?P' a b" if "a \<in> set pre" "b \<in> set rest" for a b
      using that so agree by (auto simp: sorted_wrt_append)
    ultimately show ?thesis by (auto simp: sorted_wrt_append)
  qed
  have "skiplist_inv s' (pre @ ?n # rest)"
    unfolding skiplist_inv_def using m1 hl d' set' hts sorted' slot_clause by blast
  then show ?thesis using res cmp' ml' old vn by blast
qed

section \<open>The level generator on any source\<close>

lemma randLevel_loop_range:
  "randLevel_loop m l rnd = Inr h \<Longrightarrow> l \<le> h \<and> (h \<le> m \<or> h = l)"
proof (induction m l rnd rule: randLevel_loop.induct)
  case (1 m l rnd)
  show ?case
  proof (cases "l < m")
    case False
    then show ?thesis using "1.prems" by (subst (asm) randLevel_loop.simps) simp
  next
    case True
    show ?thesis
    proof (cases "shd rnd")
      case ReadErr
      then show ?thesis using "1.prems" True by (subst (asm) randLevel_loop.simps) simp
    next
      case (ReadOk b)
      show ?thesis
      proof (cases "and b 1 = 1")
        case False
        then show ?thesis using "1.prems" True ReadOk
          by (subst (asm) randLevel_loop.simps) simp
      next
        case t: True
        then have "randLevel_loop m (l + 1) (stl rnd) = Inr h"
          using "1.prems" True ReadOk by (subst (asm) randLevel_loop.simps) simp
        from "1.IH"[OF True ReadOk t this] True show ?thesis by auto
      qed
    qed
  qed
qed

lemma randLevel_range:
  "1 \<le> maxLevel s \<Longrightarrow> randLevel s rnd = Inr R \<Longrightarrow> 1 \<le> R \<and> R \<le> maxLevel s"
  using randLevel_loop_range[of "maxLevel s" 1 rnd R] by (auto simp: randLevel_def)

section \<open>An update in place keeps the invariant\<close>

lemma set_val_nexts: "nexts (heap (set_val s a e) ! b) = nexts (heap s ! b)"
proof (cases "a < length (heap s)")
  case True
  then show ?thesis by (cases "b = a") (simp_all add: set_val_def)
next
  case False
  then have "(heap s)[a := (heap s ! a)\<lparr>val := e\<rparr>] = heap s"
    by (intro list_update_beyond) simp
  then show ?thesis by (simp add: set_val_def)
qed

lemma set_val_index [simp]: "index (set_val s a e) sl j = index s sl j"
proof (cases sl)
  case HeadSlice
  then show ?thesis by (simp add: index_def slice_elems_def set_val_def)
next
  case (NextSlice b)
  have "length (heap (set_val s a e)) = length (heap s)" by (simp add: set_val_def)
  then show ?thesis using NextSlice set_val_nexts[of s a e b]
    by (simp add: index_def slice_elems_def deref_def)
qed

lemma set_val_height [simp]: "height (set_val s a e) b = height s b"
  by (simp add: height_def set_val_nexts)

lemma set_val_valof:
  "a < length (heap s) \<Longrightarrow> valof (set_val s a e) b = (if b = a then e else valof s b)"
  by (auto simp: set_val_def valof_def)

lemma set_val_fields [simp]:
  "Compare (set_val s a e) = Compare s" "maxLevel (set_val s a e) = maxLevel s"
  "head (set_val s a e) = head s" "length (heap (set_val s a e)) = length (heap s)"
  by (simp_all add: set_val_def)

lemma set_val_first_at [simp]: "first_at (set_val s a e) L xs = first_at s L xs"
  by (simp add: first_at_def)

lemma set_val_slice_height [simp]: "slice_height (set_val s a e) p = slice_height s p"
  by (simp add: slice_height_def)

lemma set_val_inv:
  assumes c: "cmp_contract (Compare s)" and inv: "skiplist_inv s as"
    and a: "a \<in> set as" and eq: "Compare s (valof s a) e = 0"
  shows "skiplist_inv (set_val s a e) as"
proof -
  let ?s' = "set_val s a e"
  let ?c = "Compare s"
  let ?P = "\<lambda>x y. ?c (valof s x) (valof s y) = -1"
  let ?P' = "\<lambda>x y. Compare ?s' (valof ?s' x) (valof ?s' y) = -1"
  have al: "a < length (heap s)" using inv_addr[OF inv a] .
  have ea: "?c e (valof s a) = 0" using eq cmp_eq_sym[OF c] by blast
  have imp: "?P' x y" if "?P x y" for x y
  proof -
    have xy: "x \<noteq> y" using that cmp_refl[OF c, of "valof s x"] by auto
    show ?thesis
    proof (cases "x = a")
      case True
      then have "?c e (valof s y) = -1"
        using cmp_le_lt_trans[OF c, of e "valof s a" "valof s y"] ea that by simp
      then show ?thesis using True xy al by (simp add: set_val_valof)
    next
      case False
      show ?thesis
      proof (cases "y = a")
        case True
        then have "?c (valof s x) e = -1"
          using cmp_lt_le_trans[OF c, of "valof s x" "valof s a" e] eq that by simp
        then show ?thesis using True False al by (simp add: set_val_valof)
      next
        case False
        then show ?thesis using \<open>x \<noteq> a\<close> that al by (simp add: set_val_valof)
      qed
    qed
  qed
  have "sorted_wrt ?P as" by (rule inv_sorted[OF inv])
  then have "sorted_wrt ?P' as"
    by (rule sorted_wrt_mono_rel[rotated]) (use imp in blast)
  then show ?thesis using inv unfolding skiplist_inv_def by simp
qed

section \<open>Insert on a list that satisfies the invariant\<close>

lemma Insert_inv:
  assumes c: "cmp_contract (Compare s)" and inv: "skiplist_inv s as"
  shows "(\<exists>a \<in> set as. Compare s (valof s a) e = 0 \<and>
            Insert s rnd e = Some (Inr (valof s a, set_val s a e))) \<or>
         ((\<forall>a \<in> set as. Compare s (valof s a) e \<noteq> 0) \<and>
          ((\<exists>p. randLevel s rnd = Inl p \<and> Insert s rnd e = Some (Inl p)) \<or>
           (\<exists>R pre rest s'. randLevel s rnd = Inr R \<and> as = pre @ rest \<and>
              Insert s rnd e = Some (Inr (Nil, s')) \<and>
              skiplist_inv s' (pre @ length (heap s) # rest) \<and>
              Compare s' = Compare s \<and> maxLevel s' = maxLevel s \<and>
              (\<forall>a < length (heap s). valof s' a = valof s a) \<and>
              valof s' (length (heap s)) = e)))"
proof -
  let ?M = "nat (maxLevel s)"
  have m: "1 \<le> maxLevel s" and len: "length (head s) = ?M"
    using inv by (simp_all add: skiplist_inv_def)
  have ins: "Insert s rnd e = insert_loop s e rnd (slice_of []) (nat (maxLevel s - 1)) (replicate ?M None)"
    using m by (simp add: Insert_def)
  have "insert_post s e rnd ([] @ as)
          (insert_loop s e rnd (slice_of []) (nat (maxLevel s - 1)) (replicate ?M None))"
  proof (rule insert_loop_correct[OF c])
    show "skiplist_inv s ([] @ as)" using inv by simp
    show "nat (maxLevel s - 1) < slice_height s []" using m len by simp
    show "\<forall>a \<in> set []. Compare s (valof s a) e = -1" by simp
    show "length (replicate ?M None) = ?M" by simp
    show "\<forall>j. nat (maxLevel s - 1) < j \<longrightarrow> j < ?M \<longrightarrow>
            upd_ok s [] j (replicate ?M None ! j) \<and>
            (\<forall>b \<in> set as. j < height s b \<longrightarrow> Compare s (valof s b) e = 1)"
      by auto
  qed
  then have post: "insert_post s e rnd as (Insert s rnd e)" by (simp add: ins)
  show ?thesis
  proof (cases "\<exists>a \<in> set as. Compare s (valof s a) e = 0")
    case True
    then show ?thesis using post unfolding insert_post_def by blast
  next
    case False
    with post obtain pre rest upd where
      as: "as = pre @ rest"
      and pre_lt: "\<forall>a \<in> set pre. Compare s (valof s a) e = -1"
      and rest_gt: "\<forall>b \<in> set rest. Compare s (valof s b) e = 1"
      and ulen: "length upd = ?M"
      and ok: "\<forall>j < ?M. upd_ok s pre j (upd ! j)"
      and res: "Insert s rnd e = Some (insert_new s e upd rnd)"
      unfolding insert_post_def by blast
    show ?thesis
    proof (cases "randLevel s rnd")
      case (Inl p)
      then have "Insert s rnd e = Some (Inl p)" using res by (simp add: insert_new_def)
      then show ?thesis using False Inl by blast
    next
      case (Inr R)
      have R: "1 \<le> R" "R \<le> maxLevel s" using randLevel_range[OF m Inr] by simp_all
      have inv': "skiplist_inv s (pre @ rest)" using inv as by simp
      from insert_fresh_inv[OF c inv' pre_lt rest_gt ulen ok Inr R] obtain s' where
        "insert_new s e upd rnd = Inr (Nil, s')"
        "skiplist_inv s' (pre @ length (heap s) # rest)"
        "Compare s' = Compare s" "maxLevel s' = maxLevel s"
        "\<forall>a < length (heap s). valof s' a = valof s a"
        "valof s' (length (heap s)) = e" by blast
      then show ?thesis using False Inr as res by auto
    qed
  qed
qed

section \<open>Every built list satisfies the invariant\<close>

lemma New_inv:
  assumes "New c m = Inr s" and "1 \<le> m"
  shows "skiplist_inv s [] \<and> Compare s = c \<and> maxLevel s = m"
proof -
  have s: "s = \<lparr>Compare = c, maxLevel = m, head = replicate (nat m) None, heap = []\<rparr>"
    using assms by (simp add: New_def split: if_splits)
  have "index s (slice_of p) L = Inr (first_at s L q)"
    if "[] = p @ q" "L < slice_height s p" for p q L
    using that s by (simp add: index_HeadSlice)
  then show ?thesis using s assms(2) unfolding skiplist_inv_def by simp
qed

lemma cmp_eq_trans:
  assumes "cmp_contract c" "c a b = 0" "c b d = 0"
  shows "c a d = 0"
proof -
  have 1: "c a d \<le> 0" using cmp_le_trans[OF assms(1), of a b d] assms by simp
  have "c d b = 0" "c b a = 0" using assms cmp_eq_sym[OF assms(1)] by blast+
  then have "c d a \<le> 0" using cmp_le_trans[OF assms(1), of d b a] by simp
  then have "0 \<le> c a d" using cmp_flip[OF assms(1), of a d] by simp
  then show ?thesis using 1 by simp
qed

lemma built_inv:
  assumes "built c m es s" and "cmp_contract c" and "1 \<le> m"
  shows "\<exists>as. skiplist_inv s as \<and> Compare s = c \<and> maxLevel s = m \<and>
           set (map (valof s) as) \<subseteq> set es \<and>
           (\<forall>e \<in> set es. \<exists>a \<in> set as. c (valof s a) e = 0) \<and>
           (distinct_under c es \<longrightarrow> mset (map (valof s) as) = mset es)"
  using assms
proof (induction rule: built.induct)
  case (built_New c m s)
  from New_inv[OF built_New(1) built_New(3)]
  have "skiplist_inv s [] \<and> Compare s = c \<and> maxLevel s = m \<and>
           set (map (valof s) []) \<subseteq> set [] \<and>
           (\<forall>e \<in> set []. \<exists>a \<in> set []. c (valof s a) e = 0) \<and>
           (distinct_under c [] \<longrightarrow> mset (map (valof s) []) = mset [])"
    by simp
  then show ?case by blast
next
  case (built_Insert c m es s rnd e r s')
  note c = built_Insert.prems(1)
  from built_Insert.IH[OF built_Insert.prems] obtain as where
    inv: "skiplist_inv s as" and cs: "Compare s = c" and ms: "maxLevel s = m"
    and sub: "set (map (valof s) as) \<subseteq> set es"
    and cov: "\<forall>x \<in> set es. \<exists>a \<in> set as. c (valof s a) x = 0"
    and ms_eq: "distinct_under c es \<longrightarrow> mset (map (valof s) as) = mset es"
    by blast
  have cc: "cmp_contract (Compare s)" using c cs by simp
  have ins: "Insert s rnd e = Some (Inr (r, s'))" by (rule built_Insert.hyps(2))
  from Insert_inv[OF cc inv, of e rnd]
  consider (upd) a where "a \<in> set as" "c (valof s a) e = 0"
      "Insert s rnd e = Some (Inr (valof s a, set_val s a e))"
    | (panic) p where "Insert s rnd e = Some (Inl p)"
    | (fresh) pre rest s2 where "\<forall>a \<in> set as. c (valof s a) e \<noteq> 0" "as = pre @ rest"
      "Insert s rnd e = Some (Inr (Nil, s2))"
      "skiplist_inv s2 (pre @ length (heap s) # rest)"
      "Compare s2 = Compare s" "maxLevel s2 = maxLevel s"
      "\<forall>a < length (heap s). valof s2 a = valof s a"
      "valof s2 (length (heap s)) = e"
    using cs by blast
  then show ?case
  proof cases
    case upd
    then have s': "s' = set_val s a e" using ins by simp
    have al: "a < length (heap s)" using inv_addr[OF inv upd(1)] .
    have v': "valof s' b = (if b = a then e else valof s b)" for b
      using s' al by (simp add: set_val_valof)
    have inv': "skiplist_inv s' as"
      using set_val_inv[OF cc inv upd(1)] upd(2) cs s' by simp
    have sub': "set (map (valof s') as) \<subseteq> set (es @ [e])"
      using sub v' by auto
    have ea: "c e (valof s a) = 0" using upd(2) cmp_eq_sym[OF c] by blast
    have cov': "\<exists>b \<in> set as. c (valof s' b) x = 0" if "x \<in> set (es @ [e])" for x
    proof (cases "x = e")
      case True
      then show ?thesis using upd(1) v' cmp_refl[OF c] by auto
    next
      case False
      then have "x \<in> set es" using that by simp
      with cov obtain b where b: "b \<in> set as" "c (valof s b) x = 0" by blast
      show ?thesis
      proof (cases "b = a")
        case True
        then have "c e x = 0" using cmp_eq_trans[OF c ea] b(2) by simp
        then show ?thesis using upd(1) v' by auto
      next
        case False
        then show ?thesis using b v' by auto
      qed
    qed
    have "\<not> distinct_under c (es @ [e])"
    proof
      assume "distinct_under c (es @ [e])"
      then have "\<forall>x \<in> set es. c x e \<noteq> 0"
        by (simp add: distinct_under_def sorted_wrt_append)
      moreover have "valof s a \<in> set es" using sub upd(1) by auto
      ultimately show False using upd(2) by blast
    qed
    then show ?thesis using inv' sub' cov' cs ms s' by auto
  next
    case panic
    then show ?thesis using ins by simp
  next
    case fresh
    then have s': "s' = s2" using ins by simp
    let ?n = "length (heap s)"
    let ?as' = "pre @ ?n # rest"
    have old: "valof s' a = valof s a" if "a \<in> set as" for a
      using fresh(7) inv_addr[OF inv that] s' by simp
    have vals: "map (valof s') ?as' = map (valof s) pre @ e # map (valof s) rest"
      using old fresh(2,8) s' by simp
    have sub': "set (map (valof s') ?as') \<subseteq> set (es @ [e])"
      using sub fresh(2) unfolding vals by auto
    have cov': "\<exists>b \<in> set ?as'. c (valof s' b) x = 0" if "x \<in> set (es @ [e])" for x
    proof (cases "x = e")
      case True
      then show ?thesis using fresh(8) s' cmp_refl[OF c] by auto
    next
      case False
      then have "x \<in> set es" using that by simp
      with cov obtain b where b: "b \<in> set as" "c (valof s b) x = 0" by blast
      then have "b \<in> set ?as'" "c (valof s' b) x = 0"
        using old[OF b(1)] fresh(2) by auto
      then show ?thesis by blast
    qed
    have ms': "mset (map (valof s') ?as') = mset (es @ [e])" if "distinct_under c (es @ [e])"
    proof -
      have "distinct_under c es"
        using that by (simp add: distinct_under_def sorted_wrt_append)
      then have "mset (map (valof s) as) = mset es" using ms_eq by simp
      then show ?thesis unfolding vals using fresh(2) by simp
    qed
    show ?thesis
      using fresh(4,5,6) sub' cov' ms' cs ms s' by blast
  qed
qed

section \<open>The chain of a level\<close>

lemma walk_inv:
  "skiplist_inv s (p @ q) \<Longrightarrow> length q \<le> fuel \<Longrightarrow>
   walk s L fuel (first_at s L q) = Some (filter (\<lambda>a. L < height s a) q)"
proof (induction fuel arbitrary: p q)
  case 0
  then show ?case by simp
next
  case (Suc fuel)
  show ?case
  proof (cases "first_at s L q")
    case None
    then have "filter (\<lambda>a. L < height s a) q = []"
      by (auto simp: first_at_None_iff filter_empty_conv)
    then show ?thesis using None by simp
  next
    case (Some a)
    from first_at_Some[OF Some] obtain r1 r2 where
      q: "q = r1 @ a # r2" and ha: "L < height s a"
      and low: "\<forall>b \<in> set r1. height s b \<le> L" by blast
    have inv2: "skiplist_inv s ((p @ r1 @ [a]) @ r2)" using Suc.prems(1) q by simp
    have "index s (slice_of (p @ r1 @ [a])) L = Inr (first_at s L r2)"
      using ha by (intro inv_index[OF inv2]) (simp add: slice_height_def)
    then have idx: "index s (NextSlice a) L = Inr (first_at s L r2)"
      by (simp add: slice_of_def)
    have "walk s L fuel (first_at s L r2) = Some (filter (\<lambda>a. L < height s a) r2)"
      using Suc.prems(2) q by (intro Suc.IH[OF inv2]) simp
    moreover have "filter (\<lambda>a. L < height s a) q = a # filter (\<lambda>a. L < height s a) r2"
      using q ha low by (auto simp: filter_empty_conv)
    ultimately show ?thesis using Some idx by simp
  qed
qed

lemma inv_length: "skiplist_inv s as \<Longrightarrow> length as = length (heap s)"
  unfolding skiplist_inv_def using distinct_card[of as] by auto

lemma level_chain_inv:
  assumes "skiplist_inv s as" and "L < nat (maxLevel s)"
  shows "level_chain s L = Some (filter (\<lambda>a. L < height s a) as)"
proof -
  have "L < slice_height s []" using assms by (simp add: skiplist_inv_def)
  from inv_index[of s "[]" as L] this assms(1)
  have "index s HeadSlice L = Inr (first_at s L as)" by simp
  moreover have "walk s L (length (heap s)) (first_at s L as) =
       Some (filter (\<lambda>a. L < height s a) as)"
    using walk_inv[of s "[]" as "length (heap s)" L] assms(1) inv_length[OF assms(1)] by simp
  ultimately show ?thesis by (simp add: level_chain_def)
qed

lemma level0_chain_inv:
  assumes "skiplist_inv s as"
  shows "level_chain s 0 = Some as"
proof -
  have "0 < nat (maxLevel s)" using assms by (simp add: skiplist_inv_def)
  from level_chain_inv[OF assms this]
  have "level_chain s 0 = Some (filter (\<lambda>a. 0 < height s a) as)" .
  moreover have "filter (\<lambda>a. 0 < height s a) as = as"
    using inv_height[OF assms] by (intro filter_True) fastforce
  ultimately show ?thesis by simp
qed

section \<open>ForEach\<close>

lemma foreach_loop_inv:
  "skiplist_inv s (p @ q) \<Longrightarrow>
   foreach_loop s callback (first_at s 0 q) st =
     Some (Inr (foreach_spec callback (map (valof s) q) st))"
proof (induction q arbitrary: p st)
  case Nil
  then show ?case by (subst foreach_loop.simps) simp
next
  case (Cons a q)
  have a: "a < length (heap s)" using inv_addr[OF Cons.prems] by simp
  have h: "0 < height s a" using inv_height[OF Cons.prems, of a] by simp
  have inv2: "skiplist_inv s ((p @ [a]) @ q)" using Cons.prems by simp
  have "index s (slice_of (p @ [a])) 0 = Inr (first_at s 0 q)"
    using h by (intro inv_index[OF inv2]) simp
  then have idx: "index s (NextSlice a) 0 = Inr (first_at s 0 q)" by simp
  have rec: "foreach_loop s callback (first_at s 0 q) st' =
     Some (Inr (foreach_spec callback (map (valof s) q) st'))" for st'
    by (rule Cons.IH[OF inv2])
  have d: "deref s a = Inr (heap s ! a)" using a by (simp add: deref_def)
  show ?case
    using h d idx rec
    by (subst foreach_loop.simps)
       (simp add: first_at_Cons valof_def split: prod.splits option.splits)
qed

lemma ForEach_inv:
  assumes "skiplist_inv s as"
  shows "ForEach s callback st = Some (Inr (foreach_spec callback (map (valof s) as) st))"
proof -
  have "0 < slice_height s []" using assms by (simp add: skiplist_inv_def)
  from inv_index[of s "[]" as 0] this assms
  have "index s HeadSlice 0 = Inr (first_at s 0 as)" by simp
  then show ?thesis
    using foreach_loop_inv[of s "[]" as callback st] assms by (simp add: ForEach_def)
qed

lemma foreach_spec_trace:
  "foreach_spec (\<lambda>v tr. (f v, tr @ [v])) vs tr0 =
     (case List.find (\<lambda>v. f v \<noteq> None) vs of
        None \<Rightarrow> (None, tr0 @ vs)
      | Some v \<Rightarrow> (f v, tr0 @ takeWhile (\<lambda>v. f v = None) vs @ [v]))"
  by (induction vs arbitrary: tr0) (auto split: option.splits)

end
